theory Spec2Isabelle
  imports Main "HOL-Library.Sublist"
begin

section \<open>Data model of fix\_spf.py\<close>

text \<open>
  The script works on a STAMP profile table: a header line naming the columns and data
  lines of tab-separated fields. The first \<open>col_count\<close> columns are the taxonomic levels,
  the remaining ones are payload.

  A table is a header and its rows, \<open>'c spf\<close>, for two kinds of cells \<open>'c\<close>.

  \<^item> A file is a \<open>string spf\<close>: the header line and every data line, each as the list of its
    fields \<open>line.split("\t")\<close>. The line is the fields joined by tabs, so the fields are
    the text of the file as it stands, quotes included.

  \<^item> A DataFrame is a \<open>'n cell spf\<close>. \<open>force_strict_spf_hierarchy\<close> and
    \<open>check_intermediate_unclassified\<close> take and return DataFrames. A cell of a DataFrame
    that pandas has read from a file is a Python str (\<open>Str\<close>), the missing value \<open>NaN\<close>
    (a float) that pandas puts for an empty or NA-like field, or a number or boolean
    (\<open>Num\<close>) when pandas has read the whole column as numbers or booleans. The values of
    numbers and booleans are the type parameter \<open>'n\<close>; within one column equal values
    are the same element of \<open>'n\<close>. A DataFrame here has the default index
    \<open>0, 1, \<dots>\<close> of a file whose lines have as many fields as the header, it is
    rectangular (\<open>wf_spf\<close>), and its columns are addressed by position (pandas makes the
    header names unique when it reads the file).

  pandas itself is not part of the script: \<open>pd.read_csv\<close> and \<open>DataFrame.to_csv\<close> are
  parameters of \<open>main\<close> below.

  Every way in which the script stops is a value of \<open>error\<close>: \<open>sys.exit\<close> with its
  message, and the uncaught Python exceptions that the code can raise.
\<close>

datatype error = SysExit string | ValueError | IndexError | AttributeError | TypeError

datatype 'n cell = Str string | NaN | Num 'n

record 'c spf =
  columns :: "string list"
  rows :: "'c list list"

abbreviation Unclassified :: string where
  "Unclassified \<equiv> ''Unclassified''"

definition wf_spf :: "'c spf \<Rightarrow> bool" where
  "wf_spf t = list_all (\<lambda>r. length r = length (columns t)) (rows t)"

text \<open>The column \<open>in_spf[in_spf.columns[i]]\<close> as a list, one value for each row.\<close>

definition col :: "nat \<Rightarrow> 'c spf \<Rightarrow> 'c list" where
  "col i t = map (\<lambda>r. r ! i) (rows t)"

section \<open>Python helpers\<close>

text \<open>\<open>max\<close> and \<open>min\<close> of a list raise ValueError on the empty list.\<close>

fun py_max :: "nat list \<Rightarrow> error + nat" where
  "py_max [] = Inl ValueError"
| "py_max (x # xs) = Inr (fold max xs x)"

fun py_min :: "nat list \<Rightarrow> error + nat" where
  "py_min [] = Inl ValueError"
| "py_min (x # xs) = Inr (fold min xs x)"

text \<open>
  The stop index of the slice \<open>0:k\<close> on a sequence of length \<open>n\<close>: a negative \<open>k\<close>
  counts from the end, and the result is clamped to \<open>0..n\<close>.
\<close>

definition py_slice_stop :: "int \<Rightarrow> nat \<Rightarrow> nat" where
  "py_slice_stop k n = (if k < 0 then nat (int n + k) else min (nat k) n)"

text \<open>\<open>sep.join(xs)\<close> for a list of str.\<close>

fun join :: "string \<Rightarrow> string list \<Rightarrow> string" where
  "join sep [] = []"
| "join sep [x] = x"
| "join sep (x # y # ys) = x @ sep @ join sep (y # ys)"

text \<open>
  \<open>x == y\<close> on the values of a DataFrame, as the elementwise comparison of a column
  with a value has it: NaN is equal to nothing, not even to itself; a str and a number
  are never equal.
\<close>

definition py_eq :: "'n cell \<Rightarrow> 'n cell \<Rightarrow> bool" where
  "py_eq x y = (x = y \<and> x \<noteq> NaN)"

text \<open>
  A \<open>for\<close> loop whose body can raise: the first exception ends the loop and is the
  result.
\<close>

fun for_each :: "('s \<Rightarrow> 'a \<Rightarrow> error + 's) \<Rightarrow> 's \<Rightarrow> 'a list \<Rightarrow> error + 's" where
  "for_each body s [] = Inr s"
| "for_each body s (x # xs) =
     (case body s x of
        Inl e \<Rightarrow> Inl e
      | Inr s' \<Rightarrow> for_each body s' xs)"

section \<open>The Gap Filler: check\_intermediate\_unclassified\<close>

text \<open>
  The right-hand side of line 196, \<open>taxa[current_i] + "_" + "X" * unclassified_steps\<close>:
  \<open>+\<close> with a str on the right is concatenation for a str and a TypeError for NaN and
  for a number.
\<close>

fun x_label :: "'n cell \<Rightarrow> nat \<Rightarrow> error + 'n cell" where
  "x_label (Str s) unclassified_steps = Inr (Str (s @ ''_'' @ replicate unclassified_steps (CHR ''X'')))"
| "x_label NaN unclassified_steps = Inl TypeError"
| "x_label (Num v) unclassified_steps = Inl TypeError"

text \<open>
  The \<open>while current_i > 0\<close> loop of lines 188-197. Each iteration first decrements
  \<open>current_i\<close>; it either counts one more step or writes the label and breaks. When the
  loop runs out at index 0 the list is left as it is. \<open>t == 'Unclassified'\<close> holds of the
  str Unclassified only.
\<close>

fun walk_back :: "nat list \<Rightarrow> nat \<Rightarrow> 'n cell list \<Rightarrow> nat \<Rightarrow> nat \<Rightarrow> error + 'n cell list" where
  "walk_back classified_i unclass_i taxa 0 unclassified_steps = Inr taxa"
| "walk_back classified_i unclass_i taxa (Suc current_i) unclassified_steps =
     (if taxa ! current_i = Str Unclassified \<or> current_i \<notin> set classified_i
      then walk_back classified_i unclass_i taxa current_i (unclassified_steps + 1)
      else
        case x_label (taxa ! current_i) unclassified_steps of
          Inl e \<Rightarrow> Inl e
        | Inr v \<Rightarrow> Inr (taxa[unclass_i := v]))"

text \<open>
  The body of \<open>for unclass_i in unclassified_i\<close> (lines 182-197). \<open>max_classified\<close> is
  \<open>max(classified_i)\<close>: the list \<open>classified_i\<close> is never changed, so the value that the
  source recomputes in every iteration is the one computed for the test of line 172.
\<close>

definition fill_step :: "nat list \<Rightarrow> nat \<Rightarrow> 'n cell list \<Rightarrow> nat \<Rightarrow> error + 'n cell list" where
  "fill_step classified_i max_classified taxa unclass_i =
     (if unclass_i < max_classified
      then walk_back classified_i unclass_i taxa unclass_i 1
      else Inr taxa)"

text \<open>
  The argument of \<open>sys.exit\<close> (lines 176-177). \<open>" ".join(taxa)\<close> raises TypeError when an
  item of the list is not a str.
\<close>

fun str_items :: "'n cell list \<Rightarrow> error + string list" where
  "str_items [] = Inr []"
| "str_items (Str s # cs) =
     (case str_items cs of
        Inl e \<Rightarrow> Inl e
      | Inr ss \<Rightarrow> Inr (s # ss))"
| "str_items (NaN # cs) = Inl TypeError"
| "str_items (Num v # cs) = Inl TypeError"

definition stopping_message :: "'n cell list \<Rightarrow> error + string" where
  "stopping_message taxa =
     (case str_items taxa of
        Inl e \<Rightarrow> Inl e
      | Inr ss \<Rightarrow>
          Inr (''Stopping - first level of this lineage is Unclassified, but lower levels are classified:''
                 @ [CHR 0x0A] @ join '' '' ss))"

text \<open>
  The body of the loop over the rows (lines 161-199) on one row. \<open>taxa\<close> is the slice
  \<open>0:max_col_i\<close> of the row; the result is the row with that slice replaced.
\<close>

definition fix_row :: "int \<Rightarrow> 'n cell list \<Rightarrow> error + 'n cell list" where
  "fix_row max_col_i row =
     (let n = py_slice_stop max_col_i (length row);
          taxa = take n row;
          unclassified_i = filter (\<lambda>i. taxa ! i = Str Unclassified) [0..<length taxa];
          classified_i = filter (\<lambda>i. taxa ! i \<noteq> Str Unclassified) [0..<length taxa]
      in if unclassified_i = [] then Inr (taxa @ drop n row)
         else
           case py_min unclassified_i of
             Inl e \<Rightarrow> Inl e
           | Inr mn \<Rightarrow>
               (case py_max classified_i of
                  Inl e \<Rightarrow> Inl e
                | Inr mx \<Rightarrow>
                    if mn < mx then
                      if taxa ! 0 = Str Unclassified then
                        (case stopping_message taxa of
                           Inl e \<Rightarrow> Inl e
                         | Inr msg \<Rightarrow> Inl (SysExit msg))
                      else
                        (case for_each (fill_step classified_i mx) taxa unclassified_i of
                           Inl e \<Rightarrow> Inl e
                         | Inr filled \<Rightarrow> Inr (filled @ drop n row))
                    else Inr (taxa @ drop n row)))"

text \<open>The loop over the rows: the first row that fails ends the run.\<close>

fun fix_rows :: "int \<Rightarrow> 'n cell list list \<Rightarrow> error + 'n cell list list" where
  "fix_rows max_col_i [] = Inr []"
| "fix_rows max_col_i (r # rs) =
     (case fix_row max_col_i r of
        Inl e \<Rightarrow> Inl e
      | Inr r' \<Rightarrow>
          (case fix_rows max_col_i rs of
             Inl e \<Rightarrow> Inl e
           | Inr rs' \<Rightarrow> Inr (r' # rs')))"

definition check_intermediate_unclassified :: "'n cell spf \<Rightarrow> int \<Rightarrow> error + 'n cell spf" where
  "check_intermediate_unclassified orig_spf col_count =
     (let max_col_i = col_count - 1 in
      case fix_rows max_col_i (rows orig_spf) of
        Inl e \<Rightarrow> Inl e
      | Inr rs \<Rightarrow> Inr (orig_spf\<lparr>rows := rs\<rparr>))"

section \<open>The Hierarchy Enforcer: force\_strict\_spf\_hierarchy\<close>

text \<open>
  \<open>Series.unique()\<close> of pandas: the distinct values, in the order of their first
  occurrence. All missing values count as one value.
\<close>

fun unique :: "'a list \<Rightarrow> 'a list" where
  "unique [] = []"
| "unique (x # xs) = x # unique (filter (\<lambda>y. y \<noteq> x) xs)"

text \<open>\<open>str(idx)\<close> for a non-negative integer: its decimal digits.\<close>

definition digit_char :: "nat \<Rightarrow> char" where
  "digit_char d = char_of (48 + d)"

fun str_nat :: "nat \<Rightarrow> string" where
  "str_nat n = (if n < 10 then [digit_char n] else str_nat (n div 10) @ [digit_char (n mod 10)])"

declare str_nat.simps [simp del]

text \<open>
  The new label of line 241, \<open>label + "_dup" + str(idx)\<close>: the text for a label that is
  a str, and a TypeError for a label that is a number; the first \<open>+\<close> raises it. (A label
  NaN does not get this far, as it matches no row.)
\<close>

definition dup_label :: "string \<Rightarrow> nat \<Rightarrow> string" where
  "dup_label label idx = label @ ''_dup'' @ str_nat idx"

fun new_label :: "'n cell \<Rightarrow> nat \<Rightarrow> error + 'n cell" where
  "new_label (Str label) idx = Inr (Str (dup_label label idx))"
| "new_label NaN idx = Inl TypeError"
| "new_label (Num v) idx = Inl TypeError"

text \<open>
  \<open>in_spf.loc[sel, in_spf.columns[i]] = v\<close> for a boolean selection \<open>sel\<close> of the rows:
  the selected rows get \<open>v\<close> in column \<open>i\<close>.
\<close>

definition loc_assign :: "bool list \<Rightarrow> nat \<Rightarrow> 'c \<Rightarrow> 'c spf \<Rightarrow> 'c spf" where
  "loc_assign sel i v t = t\<lparr>rows := map2 (\<lambda>m r. if m then r[i := v] else r) sel (rows t)\<rparr>"

text \<open>
  The body of \<open>for idx, p in enumerate(unique_parents)\<close> (lines 240-248).
  \<open>matching_rows\<close> is the mask computed at line 227, before any row is renamed. A parent
  \<open>p\<close> that is NaN selects no row.
\<close>

fun rename_parent ::
  "nat \<Rightarrow> 'n cell \<Rightarrow> bool list \<Rightarrow> 'n cell spf \<Rightarrow> nat \<times> 'n cell \<Rightarrow> error + 'n cell spf" where
  "rename_parent i label matching_rows in_spf (idx, p) =
     (case new_label label idx of
        Inl e \<Rightarrow> Inl e
      | Inr v \<Rightarrow>
          let rows2change = map2 (\<and>) matching_rows (map (\<lambda>x. py_eq x p) (col (i - 1) in_spf))
          in Inr (loc_assign rows2change i v in_spf))"

text \<open>
  The body of \<open>for label in unique_labels\<close> (lines 223-248), for the column \<open>i\<close>. The
  label NaN matches no row: it has no matching row and no parent, and nothing is done
  for it.
\<close>

definition fix_label :: "nat \<Rightarrow> 'n cell spf \<Rightarrow> 'n cell \<Rightarrow> error + 'n cell spf" where
  "fix_label i in_spf label =
     (if label = Str Unclassified then Inr in_spf
      else
        let matching_rows = map (\<lambda>x. py_eq x label) (col i in_spf) in
        if length (filter id matching_rows) = 1 then Inr in_spf
        else
          let unique_parents =
                unique (map (\<lambda>r. r ! (i - 1)) (filter (\<lambda>r. py_eq (r ! i) label) (rows in_spf)))
          in if length unique_parents > 1
             then for_each (rename_parent i label matching_rows) in_spf (enumerate 0 unique_parents)
             else Inr in_spf)"

text \<open>
  The body of \<open>for i in range(col_count)\<close> for one \<open>i > 0\<close>: the labels of the column are
  collected once (line 219) and then handled one after the other on the table as it
  is by then.
\<close>

definition force_level :: "nat \<Rightarrow> 'n cell spf \<Rightarrow> error + 'n cell spf" where
  "force_level i in_spf = for_each (fix_label i) in_spf (unique (col i in_spf))"

text \<open>
  The loop over the columns. \<open>in_spf.columns[i]\<close> raises IndexError when the table has
  no column \<open>i\<close>.
\<close>

fun force_loop :: "'n cell spf \<Rightarrow> nat list \<Rightarrow> error + 'n cell spf" where
  "force_loop in_spf [] = Inr in_spf"
| "force_loop in_spf (i # is) =
     (if i = 0 then force_loop in_spf is
      else if length (columns in_spf) \<le> i then Inl IndexError
      else
        case force_level i in_spf of
          Inl e \<Rightarrow> Inl e
        | Inr in_spf' \<Rightarrow> force_loop in_spf' is)"

definition force_strict_spf_hierarchy :: "'n cell spf \<Rightarrow> int \<Rightarrow> error + 'n cell spf" where
  "force_strict_spf_hierarchy in_spf col_count = force_loop in_spf [0..<nat col_count]"

section \<open>The Ambiguity Normalizer: replace\_ambig\_labels\<close>

text \<open>
  The Normalizer works on the text of the file. Labels are byte strings here, so \<open>lower\<close>
  is the ASCII lower case and \<open>\d\<close> is an ASCII digit. \<open>s in x\<close> on strings is
  \<^const>\<open>sublist\<close>.
\<close>

definition lower_char :: "char \<Rightarrow> char" where
  "lower_char c =
     (if (65::nat) \<le> of_char c \<and> of_char c \<le> (90::nat) then char_of (of_char c + (32::nat)) else c)"

definition lower :: "string \<Rightarrow> string" where
  "lower s = map lower_char s"

definition is_digit :: "char \<Rightarrow> bool" where
  "is_digit c = ((48::nat) \<le> of_char c \<and> of_char c \<le> (57::nat))"

definition str2replace :: "string list" where
  "str2replace = [''uncultured'', ''ambiguous_taxa'', ''metagenome'', ''unidentified'']"

text \<open>
  \<open>re.match(r"D_\d+__", s)\<close>: the pattern at the start of \<open>s\<close>. The result is the matched
  text (\<open>group(0)\<close>) and what follows it. \<open>\d+\<close> takes the longest run of digits; a shorter
  run is followed by a digit and so never by \<open>__\<close>.
\<close>

definition match_level :: "string \<Rightarrow> (string \<times> string) option" where
  "match_level s =
     (if prefix ''D_'' s then
        let ds = takeWhile is_digit (drop 2 s);
            r = dropWhile is_digit (drop 2 s)
        in if ds \<noteq> [] \<and> prefix ''__'' r then Some (''D_'' @ ds @ ''__'', drop 2 r) else None
      else None)"

text \<open>
  \<open>re.search(r"D_\d+__(.*)", s)\<close>: the leftmost place where the pattern matches; the
  result is \<open>group(1)\<close>, the rest of the line after the tag (\<open>.\<close> does not match a newline).
\<close>

fun search_taxon :: "string \<Rightarrow> string option" where
  "search_taxon [] = None"
| "search_taxon (c # cs) =
     (case match_level (c # cs) of
        Some (tag, r) \<Rightarrow> Some (takeWhile (\<lambda>x. x \<noteq> CHR 0x0A) r)
      | None \<Rightarrow> search_taxon cs)"

text \<open>
  The body of \<open>for label_i, label in enumerate(taxa)\<close> (lines 114-137): the value that is
  appended to \<open>out_taxa\<close>. \<open>group\<close> on a failed match is an AttributeError.
\<close>

definition replace_label :: "string list \<Rightarrow> nat \<Rightarrow> string \<Rightarrow> error + string" where
  "replace_label out_taxa label_i label =
     (if list_ex (\<lambda>s. sublist s (lower label)) str2replace then Inr Unclassified
      else if sublist ''unknown'' (lower label) then
        if label_i = 0 \<or> out_taxa ! (label_i - 1) = Unclassified then Inr Unclassified
        else
          case search_taxon (out_taxa ! (label_i - 1)) of
            None \<Rightarrow> Inl AttributeError
          | Some pre_label_taxon \<Rightarrow>
              (case match_level label of
                 None \<Rightarrow> Inl AttributeError
               | Some (label_level, r) \<Rightarrow> Inr (label_level @ pre_label_taxon @ ''_X''))
      else Inr label)"

fun replace_taxa :: "string list \<Rightarrow> (nat \<times> string) list \<Rightarrow> error + string list" where
  "replace_taxa out_taxa [] = Inr out_taxa"
| "replace_taxa out_taxa ((label_i, label) # rest) =
     (case replace_label out_taxa label_i label of
        Inl e \<Rightarrow> Inl e
      | Inr v \<Rightarrow> replace_taxa (out_taxa @ [v]) rest)"

text \<open>
  \<open>out_writer.writerow(line_split)\<close> (line 140), as the fields of the line it writes. The
  writer quotes a field that holds the delimiter, the quote character or the line
  terminator, doubling the quote characters in it; a field of a line holds neither a tab
  nor a newline, so these are the fields with a double quote.
\<close>

definition csv_field :: "string \<Rightarrow> string" where
  "csv_field s =
     (if CHR 0x22 \<in> set s
      then [CHR 0x22] @ concat (map (\<lambda>c. if c = CHR 0x22 then [c, c] else [c]) s) @ [CHR 0x22]
      else s)"

definition writerow :: "string list \<Rightarrow> string list" where
  "writerow line_split = map csv_field line_split"

text \<open>
  One data line (lines 82-140), given as its fields \<open>line.split("\t")\<close>; the line itself is
  the fields joined by tabs. The result is the fields of the line that is written. A
  line with none of the five substrings is copied as it is; otherwise the slice
  \<open>0:col_count\<close> of the fields is replaced by \<open>out_taxa\<close> and the fields are written by
  the csv writer.
\<close>

definition replace_line :: "int \<Rightarrow> string list \<Rightarrow> error + string list" where
  "replace_line col_count line_split =
     (let line = join [CHR 0x09] line_split in
      if \<not> list_ex (\<lambda>s. sublist s (lower line)) (str2replace @ [''unknown'']) then Inr line_split
      else
        let k = py_slice_stop col_count (length line_split);
            taxa = take k line_split
        in case replace_taxa [] (enumerate 0 taxa) of
             Inl e \<Rightarrow> Inl e
           | Inr out_taxa \<Rightarrow> Inr (writerow (out_taxa @ drop k line_split)))"

fun replace_lines :: "int \<Rightarrow> string list list \<Rightarrow> error + string list list" where
  "replace_lines col_count [] = Inr []"
| "replace_lines col_count (l # ls) =
     (case replace_line col_count l of
        Inl e \<Rightarrow> Inl e
      | Inr l' \<Rightarrow>
          (case replace_lines col_count ls of
             Inl e \<Rightarrow> Inl e
           | Inr ls' \<Rightarrow> Inr (l' # ls')))"

text \<open>
  The file \<open>in_spf\<close> and the file \<open>out_spf\<close> that is written: the header line is copied,
  the data lines are rewritten.
\<close>

definition replace_ambig_labels :: "string spf \<Rightarrow> int \<Rightarrow> error + string spf" where
  "replace_ambig_labels in_spf col_count =
     (case replace_lines col_count (rows in_spf) of
        Inl e \<Rightarrow> Inl e
      | Inr ls \<Rightarrow> Inr (in_spf\<lparr>rows := ls\<rparr>))"

section \<open>The pipeline: main\<close>

text \<open>
  \<open>main\<close> for the arguments \<open>--replace_ambig\<close>, \<open>--col_count\<close> and the file \<open>--input\<close>; the
  result is the file \<open>--output\<close> that is written. \<open>read_csv\<close> stands for
  \<open>pd.read_csv(\<dots>, sep='\t')\<close>, from the text of a file to a DataFrame or to the exception
  it raises, and \<open>to_csv\<close> for \<open>DataFrame.to_csv(\<dots>, sep='\t', header=True, index=False)\<close>,
  from a DataFrame to the text it writes. Both belong to pandas and are parameters:
  nothing is assumed of how they type, rename or format what they read and write.
\<close>

definition main ::
  "(string spf \<Rightarrow> error + 'n cell spf) \<Rightarrow> ('n cell spf \<Rightarrow> string spf) \<Rightarrow>
     bool \<Rightarrow> int \<Rightarrow> string spf \<Rightarrow> error + string spf" where
  "main read_csv to_csv replace_ambig col_count input =
     (case (if replace_ambig
            then (case replace_ambig_labels input col_count of
                    Inl e \<Rightarrow> Inl e
                  | Inr tmp_spf \<Rightarrow> read_csv tmp_spf)
            else read_csv input) of
        Inl e \<Rightarrow> Inl e
      | Inr input_spf \<Rightarrow>
          (case force_strict_spf_hierarchy input_spf col_count of
             Inl e \<Rightarrow> Inl e
           | Inr strict_spf \<Rightarrow>
               (case check_intermediate_unclassified strict_spf col_count of
                  Inl e \<Rightarrow> Inl e
                | Inr filled_spf \<Rightarrow> Inr (to_csv filled_spf))))"

section \<open>pandas on a table of texts\<close>

text \<open>
  What \<open>pd.read_csv\<close> and \<open>to_csv\<close> do with the simplest files, for use where \<open>main\<close> is
  run on an example: files whose header names are distinct and not empty, whose lines
  have as many fields as the header, and whose fields hold no double quote and are not
  all numbers or all booleans in any column. Of such a file pandas reads the fields that
  are empty or one of its NA texts as NaN and every other field as the str it is, and it
  writes a str as it is (through the csv writer) and NaN as the empty field. How a number
  is written is the argument \<open>repr\<close>.
\<close>

definition na_values :: "string list" where
  "na_values =
     ['''', ''#N/A'', ''#N/A N/A'', ''#NA'', ''-1.#IND'', ''-1.#QNAN'', ''-NaN'', ''-nan'',
      ''1.#IND'', ''1.#QNAN'', ''<NA>'', ''N/A'', ''NA'', ''NULL'', ''NaN'', ''None'',
      ''n/a'', ''nan'', ''null'']"

definition read_text :: "string spf \<Rightarrow> error + 'n cell spf" where
  "read_text t =
     Inr \<lparr>columns = columns t,
          rows = map (map (\<lambda>s. if s \<in> set na_values then NaN else Str s)) (rows t)\<rparr>"

fun cell_text :: "('n \<Rightarrow> string) \<Rightarrow> 'n cell \<Rightarrow> string" where
  "cell_text repr (Str s) = csv_field s"
| "cell_text repr NaN = ''''"
| "cell_text repr (Num v) = repr v"

definition write_text :: "('n \<Rightarrow> string) \<Rightarrow> 'n cell spf \<Rightarrow> string spf" where
  "write_text repr t = \<lparr>columns = columns t, rows = map (map (cell_text repr)) (rows t)\<rparr>"

section \<open>Notions used to state and prove the properties\<close>

text \<open>
  These are not part of the script. \<open>index_of x xs\<close> is the position of the first \<open>x\<close> in
  \<open>xs\<close>; \<open>parents_of i t label\<close> is \<open>unique_parents\<close> of line 234 for the table \<open>t\<close>;
  \<open>renames i t label\<close> says that the loop over the parents is entered for the label;
  \<open>rename_row\<close> and \<open>relabel\<close> are what the loop over the parents does to one row;
  \<open>renamed i t r\<close> says that the pass over column \<open>i\<close> gives the row \<open>r\<close> of \<open>t\<close> a new
  label (its label is a str with several parents and its parent is not missing),
  \<open>new_name i t r\<close> is that label, and \<open>final_row i t\<close> is what the pass makes of a row
  when no new label meets a label of the column. \<open>collision_free i t\<close> says that none
  of the labels \<open>label_dupN\<close> that the pass over column \<open>i\<close> assigns is already a label of
  that column. \<open>bad_label i t\<close> says that a label of column \<open>i\<close> that is not a str has
  several parents: the pass ends with the TypeError of line 241.
  \<open>strict_level i t\<close> is the strict hierarchy at level \<open>i\<close>: rows with the same label in
  column \<open>i\<close>, other than Unclassified and the missing value, have the same value in
  column \<open>i - 1\<close>. \<open>force_upto t n\<close> is the table after the passes over the columns 1 to
  \<open>n\<close>, and \<open>no_collisions t col_count\<close> is \<open>collision_free\<close> for every pass, on the table
  that the pass finds. \<open>row_wise keep t t'\<close> says that \<open>t'\<close> is \<open>t\<close> with every row
  rewritten by one function that keeps the length and the cells at the positions
  \<open>keep\<close>.
\<close>

fun index_of :: "'a \<Rightarrow> 'a list \<Rightarrow> nat" where
  "index_of x [] = 0"
| "index_of x (y # ys) = (if x = y then 0 else Suc (index_of x ys))"

fun is_str :: "'n cell \<Rightarrow> bool" where
  "is_str (Str s) = True"
| "is_str NaN = False"
| "is_str (Num v) = False"

definition parents_of :: "nat \<Rightarrow> 'n cell spf \<Rightarrow> 'n cell \<Rightarrow> 'n cell list" where
  "parents_of i t label =
     unique (map (\<lambda>r. r ! (i - 1)) (filter (\<lambda>r. py_eq (r ! i) label) (rows t)))"

definition renames :: "nat \<Rightarrow> 'n cell spf \<Rightarrow> 'n cell \<Rightarrow> bool" where
  "renames i t label = (label \<noteq> Str Unclassified \<and> 1 < length (parents_of i t label))"

fun the_str :: "'n cell \<Rightarrow> string" where
  "the_str (Str s) = s"
| "the_str NaN = []"
| "the_str (Num v) = []"

fun rename_row :: "nat \<Rightarrow> string \<Rightarrow> 'n cell list \<Rightarrow> nat \<times> 'n cell \<Rightarrow> 'n cell list" where
  "rename_row i label r (idx, p) =
     (if py_eq (r ! (i - 1)) p then r[i := Str (dup_label label idx)] else r)"

definition relabel :: "nat \<Rightarrow> 'n cell list \<Rightarrow> 'n cell \<Rightarrow> 'n cell list \<Rightarrow> 'n cell list" where
  "relabel i ups label r =
     (if r ! i = label \<and> r ! (i - 1) \<noteq> NaN
      then r[i := Str (dup_label (the_str label) (index_of (r ! (i - 1)) ups))] else r)"

definition renamed :: "nat \<Rightarrow> 'n cell spf \<Rightarrow> 'n cell list \<Rightarrow> bool" where
  "renamed i t r = (is_str (r ! i) \<and> renames i t (r ! i) \<and> r ! (i - 1) \<noteq> NaN)"

definition new_name :: "nat \<Rightarrow> 'n cell spf \<Rightarrow> 'n cell list \<Rightarrow> 'n cell" where
  "new_name i t r =
     Str (dup_label (the_str (r ! i)) (index_of (r ! (i - 1)) (parents_of i t (r ! i))))"

definition final_row :: "nat \<Rightarrow> 'n cell spf \<Rightarrow> 'n cell list \<Rightarrow> 'n cell list" where
  "final_row i t r = (if renamed i t r then r[i := new_name i t r] else r)"

definition collision_free :: "nat \<Rightarrow> 'n cell spf \<Rightarrow> bool" where
  "collision_free i t =
     (\<forall>r\<in>set (rows t). \<forall>r'\<in>set (rows t). renamed i t r \<longrightarrow> r' ! i \<noteq> new_name i t r)"

definition bad_label :: "nat \<Rightarrow> 'n cell spf \<Rightarrow> bool" where
  "bad_label i t = (\<exists>r\<in>set (rows t). renames i t (r ! i) \<and> \<not> is_str (r ! i))"

definition rows_ok :: "nat \<Rightarrow> 'c spf \<Rightarrow> bool" where
  "rows_ok i t = (\<forall>r\<in>set (rows t). i < length r)"

definition strict_level :: "nat \<Rightarrow> 'n cell spf \<Rightarrow> bool" where
  "strict_level i t =
     (\<forall>r\<in>set (rows t). \<forall>r'\<in>set (rows t).
        r ! i = r' ! i \<and> r ! i \<noteq> Str Unclassified \<and> r ! i \<noteq> NaN \<longrightarrow> r ! (i - 1) = r' ! (i - 1))"

primrec force_upto :: "'n cell spf \<Rightarrow> nat \<Rightarrow> error + 'n cell spf" where
  "force_upto t 0 = Inr t"
| "force_upto t (Suc n) =
     (case force_upto t n of
        Inl e \<Rightarrow> Inl e
      | Inr s \<Rightarrow> force_level (Suc n) s)"

definition no_collisions :: "'n cell spf \<Rightarrow> int \<Rightarrow> bool" where
  "no_collisions t col_count =
     list_all (\<lambda>i. case force_upto t (i - 1) of Inl e \<Rightarrow> True | Inr s \<Rightarrow> collision_free i s)
       [1..<nat col_count]"

definition row_wise :: "(nat \<Rightarrow> bool) \<Rightarrow> 'c spf \<Rightarrow> 'c spf \<Rightarrow> bool" where
  "row_wise keep t t' =
     (\<exists>f. t' = t\<lparr>rows := map f (rows t)\<rparr>
        \<and> (\<forall>r. length (f r) = length r \<and> (\<forall>k. keep k \<longrightarrow> f r ! k = r ! k)))"

text \<open>
  \<open>same_from n t t'\<close>: the tables have the same header and as many rows, and every row of
  \<open>t'\<close> has the length and, from position \<open>n\<close> on, the cells of the row of \<open>t\<close> at the
  same place. \<open>written_from n t t'\<close> is the same for two files, up to the quoting of the
  csv writer.
\<close>

definition same_from :: "nat \<Rightarrow> 'c spf \<Rightarrow> 'c spf \<Rightarrow> bool" where
  "same_from n t t' =
     (columns t' = columns t \<and> length (rows t') = length (rows t)
      \<and> (\<forall>k<length (rows t). length (rows t' ! k) = length (rows t ! k)
            \<and> (\<forall>j. n \<le> j \<longrightarrow> rows t' ! k ! j = rows t ! k ! j)))"

definition written_from :: "nat \<Rightarrow> string spf \<Rightarrow> string spf \<Rightarrow> bool" where
  "written_from n t t' =
     (columns t' = columns t \<and> length (rows t') = length (rows t)
      \<and> (\<forall>k<length (rows t). length (rows t' ! k) = length (rows t ! k)
            \<and> (\<forall>j. n \<le> j \<and> j < length (rows t ! k) \<longrightarrow>
                  rows t' ! k ! j = rows t ! k ! j \<or> rows t' ! k ! j = csv_field (rows t ! k ! j))))"

section \<open>Lemmas about loops\<close>

lemma for_each_append:
  "for_each body s (xs @ ys) =
     (case for_each body s xs of Inl e \<Rightarrow> Inl e | Inr s' \<Rightarrow> for_each body s' ys)"
  by (induction xs arbitrary: s) (auto split: sum.splits)

lemma for_each_invariant:
  assumes "for_each body s xs = Inr s'" "P s"
    and "\<And>a x b. P a \<Longrightarrow> x \<in> set xs \<Longrightarrow> body a x = Inr b \<Longrightarrow> P b"
  shows "P s'"
  using assms
proof (induction xs arbitrary: s)
  case Nil
  then show ?case by simp
next
  case (Cons x xs)
  from Cons.prems(1) obtain s1 where b: "body s x = Inr s1" and r: "for_each body s1 xs = Inr s'"
    by (auto split: sum.splits)
  have "P s1" using Cons.prems(2) _ b by (rule Cons.prems(3)) simp
  with r show ?case by (rule Cons.IH) (auto intro: Cons.prems(3))
qed

section \<open>Lemmas about the Gap Filler\<close>

lemma x_label_Inr: "x_label c n = Inr v \<Longrightarrow> \<exists>s. c = Str s \<and> v = Str (s @ ''_'' @ replicate n (CHR ''X''))"
  by (cases c) auto

lemma walk_back_frame:
  "walk_back cl u cur j s = Inr out \<Longrightarrow> length out = length cur \<and> (\<forall>i. i \<noteq> u \<longrightarrow> out ! i = cur ! i)"
  by (induction j arbitrary: s) (auto split: if_splits sum.splits)

lemma walk_back_found:
  assumes "c < j" "c \<in> set cl" "cur ! c = Str lab" "lab \<noteq> Unclassified"
    and "\<forall>k. c < k \<and> k < j \<longrightarrow> k \<notin> set cl"
  shows "walk_back cl u cur j s = Inr (cur[u := Str (lab @ ''_'' @ replicate (s + (j - Suc c)) (CHR ''X''))])"
  using assms
proof (induction j arbitrary: s)
  case 0
  then show ?case by simp
next
  case (Suc j)
  show ?case
  proof (cases "c = j")
    case True
    with Suc.prems show ?thesis by simp
  next
    case False
    with Suc.prems have cj: "c < j" by simp
    from Suc.prems cj have notin: "j \<notin> set cl" by simp
    have eq: "s + 1 + (j - Suc c) = s + (Suc j - Suc c)" using cj by arith
    have "walk_back cl u cur (Suc j) s = walk_back cl u cur j (s + 1)"
      using notin by simp
    also have "\<dots> = Inr (cur[u := Str (lab @ ''_'' @ replicate (s + 1 + (j - Suc c)) (CHR ''X''))])"
      using Suc.IH [OF cj Suc.prems(2) Suc.prems(3) Suc.prems(4)] Suc.prems(5) by simp
    finally show ?thesis by (simp only: eq)
  qed
qed

lemma fill_step_frame:
  "fill_step cl mx cur u = Inr out \<Longrightarrow> length out = length cur \<and> (\<forall>i. i \<noteq> u \<longrightarrow> out ! i = cur ! i)"
  by (auto simp: fill_step_def dest: walk_back_frame split: if_splits)

lemma fill_length:
  "for_each (fill_step cl mx) cur us = Inr out \<Longrightarrow> length out = length cur"
proof (induction us arbitrary: cur)
  case Nil
  then show ?case by simp
next
  case (Cons a us)
  from Cons.prems obtain c1 where a: "fill_step cl mx cur a = Inr c1"
    and r: "for_each (fill_step cl mx) c1 us = Inr out" by (auto split: sum.splits)
  from Cons.IH [OF r] fill_step_frame [OF a] show ?case by simp
qed

lemma fill_other:
  "for_each (fill_step cl mx) cur us = Inr out \<Longrightarrow> i \<notin> set us \<Longrightarrow> out ! i = cur ! i"
proof (induction us arbitrary: cur)
  case Nil
  then show ?case by simp
next
  case (Cons a us)
  from Cons.prems obtain c1 where a: "fill_step cl mx cur a = Inr c1"
    and r: "for_each (fill_step cl mx) c1 us = Inr out" by (auto split: sum.splits)
  from Cons.prems(2) have "i \<notin> set us" "i \<noteq> a" by auto
  with Cons.IH [OF r] fill_step_frame [OF a] show ?case by simp
qed

lemma py_max_Max: "xs \<noteq> [] \<Longrightarrow> py_max xs = Inr (Max (set xs))"
  using Max.set_eq_fold [of "hd xs" "tl xs"] by (cases xs) simp_all

lemma py_min_Min: "xs \<noteq> [] \<Longrightarrow> py_min xs = Inr (Min (set xs))"
  using Min.set_eq_fold [of "hd xs" "tl xs"] by (cases xs) simp_all

lemma py_slice_stop_le: "py_slice_stop k n \<le> n"
  by (auto simp: py_slice_stop_def)

lemma py_slice_stop_levels:
  "1 \<le> col_count \<Longrightarrow> nat col_count \<le> n \<Longrightarrow> py_slice_stop (col_count - 1) n = nat col_count - 1"
  by (auto simp: py_slice_stop_def)

lemma fix_row_frame:
  assumes "fix_row m row = Inr row'"
  shows "length row' = length row \<and> (\<forall>j. py_slice_stop m (length row) \<le> j \<longrightarrow> row' ! j = row ! j)"
proof -
  define n where "n = py_slice_stop m (length row)"
  have nle: "n \<le> length row" by (simp add: n_def py_slice_stop_le)
  have frame: "length (xs @ drop n row) = length row \<and> (\<forall>j. n \<le> j \<longrightarrow> (xs @ drop n row) ! j = row ! j)"
    if "length xs = n" for xs :: "'a cell list"
    using that nle by (auto simp: nth_append)
  have l1: "length (take n row) = n" using nle by simp
  from assms have "row' = row
      \<or> (\<exists>cl mx us filled. for_each (fill_step cl mx) (take n row) us = Inr filled \<and> row' = filled @ drop n row)"
    unfolding fix_row_def Let_def n_def [symmetric]
    by (auto split: if_splits sum.splits)
  then show ?thesis
  proof
    assume "row' = row"
    then show ?thesis by simp
  next
    assume "\<exists>cl mx us filled. for_each (fill_step cl mx) (take n row) us = Inr filled \<and> row' = filled @ drop n row"
    then obtain cl mx us filled where f: "for_each (fill_step cl mx) (take n row) us = Inr filled"
      and r: "row' = filled @ drop n row"
      by blast
    have "length filled = n"
      using nle fill_length [OF f] by simp
    from frame [OF this] show ?thesis unfolding r n_def by blast
  qed
qed

lemma fix_rows_nth:
  "fix_rows m rs = Inr rs' \<Longrightarrow>
     length rs' = length rs \<and> (\<forall>k<length rs. fix_row m (rs ! k) = Inr (rs' ! k))"
proof (induction rs arbitrary: rs')
  case Nil
  then show ?case by simp
next
  case (Cons r rs)
  from Cons.prems obtain r' rs'' where
    r: "fix_row m r = Inr r'" and rs: "fix_rows m rs = Inr rs''" and eq: "rs' = r' # rs''"
    by (auto split: sum.splits)
  from Cons.IH [OF rs] r eq show ?case by (auto simp: nth_Cons')
qed

lemma check_rows:
  "check_intermediate_unclassified t cc = Inr t' \<Longrightarrow>
     fix_rows (cc - 1) (rows t) = Inr (rows t') \<and> columns t' = columns t"
  by (auto simp: check_intermediate_unclassified_def split: sum.splits)

section \<open>Claims about the Gap Filler\<close>

text \<open>
  Claim C3 (Scenario B). With \<open>col_count = 3\<close> the Gap Filler reads the levels 0 and 1 of
  the row (Bacteria, Unclassified, D\_2\_\_Clostridia) only: the slice \<open>0:max_col_i\<close> ends
  before the last level column. Among these levels the only Unclassified index, 1, is
  not smaller than the largest classified index, 0, so the row is returned as it is and
  level 1 is still Unclassified, not Bacteria\_X. The payload 5 is the number that
  pandas reads.
\<close>

theorem scenario_B_row_not_filled:
  "check_intermediate_unclassified
     \<lparr>columns = [''Level_1'', ''Level_2'', ''Level_3'', ''Sample1''],
      rows = [[Str ''Bacteria'', Str ''Unclassified'', Str ''D_2__Clostridia'', Num (5::int)]]\<rparr> 3
   = Inr \<lparr>columns = [''Level_1'', ''Level_2'', ''Level_3'', ''Sample1''],
          rows = [[Str ''Bacteria'', Str ''Unclassified'', Str ''D_2__Clostridia'', Num 5]]\<rparr>"
  by code_simp

text \<open>
  Claim C4. A row without any classified level among the levels 0..col\_count-2 is not
  returned unchanged: when these levels are all Unclassified, \<open>max(classified_i)\<close> is
  taken of the empty list and the run ends with ValueError.
\<close>

theorem unclassified_row_value_error:
  "check_intermediate_unclassified
     \<lparr>columns = [''Level_1'', ''Level_2'', ''Level_3'', ''Sample1''],
      rows = [[Str ''Unclassified'', Str ''Unclassified'', Str ''Unclassified'', Num (5::int)]]\<rparr> 3
   = Inl ValueError"
  by code_simp

text \<open>
  Claim C5. With \<open>col_count = 4\<close> the row (Bacteria, Firmicutes, Unclassified,
  D\_3\_\_Clostridium) has level 0 classified and the Unclassified level 2, which is
  within the levels 0..col\_count-2 and below the largest classified index of the row, 3.
  The Gap Filler reads the levels 0..2 only, finds the largest classified index 1 there,
  and returns the row as it is: level 2 is still Unclassified, not Firmicutes\_X.
\<close>

theorem gap_before_last_level_not_filled:
  "check_intermediate_unclassified
     \<lparr>columns = [''Level_1'', ''Level_2'', ''Level_3'', ''Level_4'', ''Sample1''],
      rows = [[Str ''Bacteria'', Str ''Firmicutes'', Str ''Unclassified'', Str ''D_3__Clostridium'',
               Num (5::int)]]\<rparr> 4
   = Inr \<lparr>columns = [''Level_1'', ''Level_2'', ''Level_3'', ''Level_4'', ''Sample1''],
          rows = [[Str ''Bacteria'', Str ''Firmicutes'', Str ''Unclassified'', Str ''D_3__Clostridium'',
                   Num 5]]\<rparr>"
  by code_simp

section \<open>What the Gap Filler does on one row\<close>

text \<open>
  With \<open>n\<close> the number of levels that the Gap Filler reads (the levels 0 to
  \<open>col_count - 2\<close> of a full row): a row whose level 0 is Unclassified and which has a
  classified level among the levels \<open>1..n-1\<close> ends the run with the message of
  \<open>sys.exit\<close>, which lists these \<open>n\<close> levels, when they are all str; a row with a
  classified level and no Unclassified level before its last classified one, and a row
  without Unclassified levels, are returned as they are; a row whose \<open>n > 0\<close> levels are
  all Unclassified ends the run with ValueError. And a row whose levels that are read
  are all str, with level 0 classified, gets every Unclassified level below the largest
  classified index among the levels that are read filled with the label of the nearest
  classified level before it.
\<close>

lemma fix_row_exit:
  assumes n: "n = py_slice_stop m (length row)"
    and "row ! 0 = Str Unclassified" "0 < d" "d < n" "row ! d \<noteq> Str Unclassified"
  shows "fix_row m row =
     (case stopping_message (take n row) of Inl e \<Rightarrow> Inl e | Inr msg \<Rightarrow> Inl (SysExit msg))"
proof -
  define taxa where "taxa = take n row"
  define us where "us = filter (\<lambda>i. taxa ! i = Str Unclassified) [0..<length taxa]"
  define cl where "cl = filter (\<lambda>i. taxa ! i \<noteq> Str Unclassified) [0..<length taxa]"
  have nle: "n \<le> length row" by (simp add: n py_slice_stop_le)
  then have len: "length taxa = n" by (simp add: taxa_def)
  have tk: "taxa ! i = row ! i" if "i < n" for i using that by (simp add: taxa_def)
  have z_in: "0 \<in> set us" using assms(2,3,4) tk [of 0] by (simp add: us_def len)
  have d_in: "d \<in> set cl" using assms(4,5) tk by (simp add: cl_def len)
  have us_ne: "us \<noteq> []" and cl_ne: "cl \<noteq> []" using z_in d_in by auto
  have mn: "py_min us = Inr (Min (set us))" using us_ne by (rule py_min_Min)
  have mx: "py_max cl = Inr (Max (set cl))" using cl_ne by (rule py_max_Max)
  have "Min (set us) \<le> 0" using z_in by (intro Min_le) simp_all
  moreover have "d \<le> Max (set cl)" using d_in by simp
  ultimately have lt: "Min (set us) < Max (set cl)" using assms(3) by linarith
  have t0: "taxa ! 0 = Str Unclassified" using assms(2,3,4) tk [of 0] by simp
  show ?thesis
    unfolding fix_row_def Let_def n [symmetric] taxa_def [symmetric] us_def [symmetric] cl_def [symmetric]
    using us_ne mn mx lt t0 by simp
qed

lemma fix_row_untouched:
  assumes n: "n = py_slice_stop m (length row)"
    and "d < n" "row ! d \<noteq> Str Unclassified"
    and "\<forall>u<n. row ! u = Str Unclassified \<longrightarrow> (\<forall>c<n. row ! c \<noteq> Str Unclassified \<longrightarrow> c < u)"
  shows "fix_row m row = Inr row"
proof -
  define taxa where "taxa = take n row"
  define us where "us = filter (\<lambda>i. taxa ! i = Str Unclassified) [0..<length taxa]"
  define cl where "cl = filter (\<lambda>i. taxa ! i \<noteq> Str Unclassified) [0..<length taxa]"
  have nle: "n \<le> length row" by (simp add: n py_slice_stop_le)
  then have len: "length taxa = n" by (simp add: taxa_def)
  have tk: "taxa ! i = row ! i" if "i < n" for i using that by (simp add: taxa_def)
  have id: "taxa @ drop n row = row" by (simp add: taxa_def)
  show ?thesis
  proof (cases "us = []")
    case True
    then show ?thesis
      unfolding fix_row_def Let_def n [symmetric] taxa_def [symmetric] us_def [symmetric]
      by (simp add: id)
  next
    case False
    have d_in: "d \<in> set cl" using assms(2,3) tk by (simp add: cl_def len)
    then have cl_ne: "cl \<noteq> []" by auto
    have mn: "py_min us = Inr (Min (set us))" using False by (rule py_min_Min)
    have mx: "py_max cl = Inr (Max (set cl))" using cl_ne by (rule py_max_Max)
    have "Min (set us) \<in> set us" using False by (intro Min_in) simp_all
    then have u: "Min (set us) < n" "row ! Min (set us) = Str Unclassified"
      using tk by (auto simp: us_def len)
    have "Max (set cl) \<in> set cl" using cl_ne by (intro Max_in) simp_all
    then have c: "Max (set cl) < n" "row ! Max (set cl) \<noteq> Str Unclassified"
      using tk by (auto simp: cl_def len)
    from assms(4) u c have "Max (set cl) < Min (set us)" by blast
    then have "\<not> Min (set us) < Max (set cl)" by simp
    then show ?thesis
      unfolding fix_row_def Let_def n [symmetric] taxa_def [symmetric] us_def [symmetric] cl_def [symmetric]
      using False mn mx by (simp add: id)
  qed
qed

lemma fix_row_all_classified:
  assumes n: "n = py_slice_stop m (length row)" and "\<forall>u<n. row ! u \<noteq> Str Unclassified"
  shows "fix_row m row = Inr row"
proof -
  have nle: "n \<le> length row" by (simp add: n py_slice_stop_le)
  have "filter (\<lambda>i. take n row ! i = Str Unclassified) [0..<length (take n row)] = []"
    using assms(2) nle by (auto simp: filter_empty_conv)
  then show ?thesis
    unfolding fix_row_def Let_def n [symmetric] by simp
qed

lemma fix_row_all_unclassified:
  assumes n: "n = py_slice_stop m (length row)" and "0 < n" "\<forall>u<n. row ! u = Str Unclassified"
  shows "fix_row m row = Inl ValueError"
proof -
  define taxa where "taxa = take n row"
  define us where "us = filter (\<lambda>i. taxa ! i = Str Unclassified) [0..<length taxa]"
  define cl where "cl = filter (\<lambda>i. taxa ! i \<noteq> Str Unclassified) [0..<length taxa]"
  have nle: "n \<le> length row" by (simp add: n py_slice_stop_le)
  then have len: "length taxa = n" by (simp add: taxa_def)
  have tk: "taxa ! i = row ! i" if "i < n" for i using that by (simp add: taxa_def)
  have cl: "cl = []" using assms(3) tk by (auto simp: cl_def len filter_empty_conv)
  have "0 \<in> set us" using assms(2,3) tk [of 0] by (simp add: us_def len)
  then have us: "us \<noteq> []" by auto
  have mn: "py_min us = Inr (Min (set us))" using us by (rule py_min_Min)
  show ?thesis
    unfolding fix_row_def Let_def n [symmetric] taxa_def [symmetric] us_def [symmetric] cl_def [symmetric]
    using us mn by (simp add: cl)
qed

lemma walk_back_cases:
  assumes "\<forall>k<j. is_str (cur ! k)"
  shows "walk_back cl u cur j s = Inr cur \<or> (\<exists>v. is_str v \<and> walk_back cl u cur j s = Inr (cur[u := v]))"
  using assms
proof (induction j arbitrary: s)
  case 0
  then show ?case by simp
next
  case (Suc j)
  show ?case
  proof (cases "cur ! j = Str Unclassified \<or> j \<notin> set cl")
    case True
    with Suc.IH [of "s + 1"] Suc.prems show ?thesis by simp
  next
    case False
    from Suc.prems have "is_str (cur ! j)" by simp
    then obtain lab where "cur ! j = Str lab" by (cases "cur ! j") simp_all
    with False have "walk_back cl u cur (Suc j) s
        = Inr (cur[u := Str (lab @ ''_'' @ replicate s (CHR ''X''))])" by simp
    moreover have "is_str (Str (lab @ ''_'' @ replicate s (CHR ''X'')))" by simp
    ultimately show ?thesis by blast
  qed
qed

lemma fill_total:
  assumes "\<forall>k<length cur. is_str (cur ! k)" "\<forall>u\<in>set us. u < length cur"
  shows "\<exists>out. for_each (fill_step cl mx) cur us = Inr out"
  using assms
proof (induction us arbitrary: cur)
  case Nil
  then show ?case by simp
next
  case (Cons a us)
  have al: "a < length cur" using Cons.prems(2) by simp
  then have "\<forall>k<a. is_str (cur ! k)" using Cons.prems(1) by simp
  from walk_back_cases [OF this, of cl a 1]
  have "fill_step cl mx cur a = Inr cur \<or> (\<exists>v. is_str v \<and> fill_step cl mx cur a = Inr (cur[a := v]))"
    by (auto simp: fill_step_def)
  then have "\<exists>c1. fill_step cl mx cur a = Inr c1
      \<and> (\<forall>k<length c1. is_str (c1 ! k)) \<and> length c1 = length cur"
  proof
    assume "fill_step cl mx cur a = Inr cur"
    with Cons.prems(1) show ?thesis by simp
  next
    assume "\<exists>v. is_str v \<and> fill_step cl mx cur a = Inr (cur[a := v])"
    then obtain v where v: "is_str v" "fill_step cl mx cur a = Inr (cur[a := v])" by blast
    have "is_str (cur[a := v] ! k)" if "k < length cur" for k
      using Cons.prems(1) v(1) that by (cases "k = a") simp_all
    with v(2) show ?thesis by simp
  qed
  then obtain c1 where c1: "fill_step cl mx cur a = Inr c1"
    and ok: "\<forall>k<length c1. is_str (c1 ! k)" and len: "length c1 = length cur"
    by blast
  from Cons.prems(2) len have "\<forall>u\<in>set us. u < length c1" by simp
  from Cons.IH [OF ok this] c1 show ?case by simp
qed

lemma fill_found:
  assumes "for_each (fill_step cl mx) cur us = Inr out"
    and "u \<in> set us" "distinct us" "u < mx" "u < length cur"
    and "c < u" "c \<in> set cl" "cur ! c = Str lab" "lab \<noteq> Unclassified" "c \<notin> set us"
    and "\<forall>k. c < k \<and> k < u \<longrightarrow> k \<notin> set cl"
  shows "out ! u = Str (lab @ ''_'' @ replicate (u - c) (CHR ''X''))"
  using assms
proof (induction us arbitrary: cur)
  case Nil
  then show ?case by simp
next
  case (Cons a us)
  from Cons.prems(1) obtain c1 where a: "fill_step cl mx cur a = Inr c1"
    and r: "for_each (fill_step cl mx) c1 us = Inr out" by (auto split: sum.splits)
  show ?case
  proof (cases "a = u")
    case True
    with Cons.prems have "u \<notin> set us" by simp
    with r have o: "out ! u = c1 ! u" by (rule fill_other)
    have eq: "1 + (u - Suc c) = u - c" using Cons.prems by arith
    have "walk_back cl u cur u 1 = Inr (cur[u := Str (lab @ ''_'' @ replicate (1 + (u - Suc c)) (CHR ''X''))])"
      using Cons.prems by (intro walk_back_found) simp_all
    then have wb: "walk_back cl u cur u 1 = Inr (cur[u := Str (lab @ ''_'' @ replicate (u - c) (CHR ''X''))])"
      by (simp only: eq)
    have "fill_step cl mx cur u = walk_back cl u cur u 1"
      using Cons.prems(4) by (simp only: fill_step_def if_True)
    with a True wb have "c1 = cur[u := Str (lab @ ''_'' @ replicate (u - c) (CHR ''X''))]"
      by simp
    with o Cons.prems(5) show ?thesis by simp
  next
    case False
    have "c \<noteq> a" using Cons.prems by auto
    with fill_step_frame [OF a] have c1c: "c1 ! c = Str lab" and len: "length c1 = length cur"
      using Cons.prems(8) by simp_all
    show ?thesis
      using Cons.IH [OF r _ _ Cons.prems(4) _ Cons.prems(6,7) c1c Cons.prems(9) _ Cons.prems(11)]
        Cons.prems False len by simp
  qed
qed

lemma fix_row_fill:
  assumes n: "n = py_slice_stop m (length row)"
    and str: "\<forall>j<n. is_str (row ! j)"
    and "row ! 0 \<noteq> Str Unclassified"
    and u: "u < n" "row ! u = Str Unclassified"
    and d: "u < d" "d < n" "row ! d \<noteq> Str Unclassified"
    and c: "c < u" "row ! c = Str lab" "lab \<noteq> Unclassified"
      "\<forall>k. c < k \<and> k < u \<longrightarrow> row ! k = Str Unclassified"
  shows "\<exists>row'. fix_row m row = Inr row' \<and> row' ! u = Str (lab @ ''_'' @ replicate (u - c) (CHR ''X''))"
proof -
  define taxa where "taxa = take n row"
  define us where "us = filter (\<lambda>i. taxa ! i = Str Unclassified) [0..<length taxa]"
  define cl where "cl = filter (\<lambda>i. taxa ! i \<noteq> Str Unclassified) [0..<length taxa]"
  have nle: "n \<le> length row" by (simp add: n py_slice_stop_le)
  then have len: "length taxa = n" by (simp add: taxa_def)
  have tk: "taxa ! i = row ! i" if "i < n" for i using that by (simp add: taxa_def)
  have u_in: "u \<in> set us" using u tk by (simp add: us_def len)
  have d_in: "d \<in> set cl" using d tk by (simp add: cl_def len)
  have c_in: "c \<in> set cl" using c u tk by (simp add: cl_def len)
  have us_ne: "us \<noteq> []" and cl_ne: "cl \<noteq> []" using u_in d_in by auto
  have mn: "py_min us = Inr (Min (set us))" using us_ne by (rule py_min_Min)
  have mx: "py_max cl = Inr (Max (set cl))" using cl_ne by (rule py_max_Max)
  have "Min (set us) \<le> u" using u_in by simp
  moreover have dmax: "d \<le> Max (set cl)" using d_in by simp
  ultimately have lt: "Min (set us) < Max (set cl)" using d by linarith
  have t0: "taxa ! 0 \<noteq> Str Unclassified" using assms(3) u tk [of 0] by simp
  have "\<forall>k<length taxa. is_str (taxa ! k)" using str tk len by simp
  moreover have "\<forall>u\<in>set us. u < length taxa" by (simp add: us_def)
  ultimately obtain filled where f: "for_each (fill_step cl (Max (set cl))) taxa us = Inr filled"
    using fill_total by blast
  have res: "fix_row m row = Inr (filled @ drop n row)"
    unfolding fix_row_def Let_def n [symmetric] taxa_def [symmetric] us_def [symmetric] cl_def [symmetric]
    using us_ne mn mx lt t0 f by simp
  have gap: "\<forall>k. c < k \<and> k < u \<longrightarrow> k \<notin> set cl"
    using c u tk by (auto simp: cl_def len)
  have "filled ! u = Str (lab @ ''_'' @ replicate (u - c) (CHR ''X''))"
  proof (rule fill_found [OF f u_in _ _ _ c(1) c_in _ c(3) _ gap])
    show "distinct us" by (simp add: us_def)
    show "u < Max (set cl)" using d dmax by linarith
    show "u < length taxa" using u len by simp
    show "taxa ! c = Str lab" using c u tk by simp
    show "c \<notin> set us" using c u tk by (simp add: us_def)
  qed
  moreover have "(filled @ drop n row) ! u = filled ! u"
    using u len fill_length [OF f] by (simp add: nth_append)
  ultimately show ?thesis using res by simp
qed

text \<open>
  The fill, where it takes place. Let \<open>row\<close> be row \<open>k\<close> of a rectangular
  DataFrame with at least \<open>col_count\<close> columns, whose levels 0..col\_count-2 are all str,
  with level 0 classified. Let \<open>u \<le> col_count - 2\<close> be an Unclassified level below the
  largest classified index among the levels 0..col\_count-2, the levels that the Gap
  Filler reads (the last level column, col\_count-1, does not count), and let \<open>c\<close> be
  the nearest classified level before \<open>u\<close>. Then the body of the loop returns a row
  whose level \<open>u\<close> is the label of level \<open>c\<close>, followed by \<open>_\<close> and by \<open>u - c\<close> letters X,
  and whenever the pass returns a table, this row is its row \<open>k\<close>.
\<close>

lemma gap_filler_fills:
  assumes "1 \<le> col_count" "wf_spf t" "nat col_count \<le> length (columns t)"
    and "k < length (rows t)" "row = rows t ! k"
    and "\<forall>j<nat col_count - 1. is_str (row ! j)"
    and "row ! 0 \<noteq> Str Unclassified"
    and "u < nat col_count - 1" "row ! u = Str Unclassified"
    and "u < Max {i. i < nat col_count - 1 \<and> row ! i \<noteq> Str Unclassified}"
    and "c < u" "row ! c = Str lab" "lab \<noteq> Unclassified"
    and "\<forall>j. c < j \<and> j < u \<longrightarrow> row ! j = Str Unclassified"
  shows "\<exists>row'. fix_row (col_count - 1) row = Inr row'
           \<and> row' ! u = Str (lab @ ''_'' @ replicate (u - c) (CHR ''X''))
           \<and> (\<forall>t'. check_intermediate_unclassified t col_count = Inr t' \<longrightarrow> rows t' ! k = row')"
proof -
  have len: "length row = length (columns t)"
    using assms(2,4,5) by (simp add: wf_spf_def list_all_iff)
  have n: "nat col_count - 1 = py_slice_stop (col_count - 1) (length row)"
    using py_slice_stop_levels [OF assms(1), of "length row"] assms(3) len by simp
  let ?S = "{i. i < nat col_count - 1 \<and> row ! i \<noteq> Str Unclassified}"
  have fin: "finite ?S" by simp
  have "c \<in> ?S" using assms by simp
  then have "?S \<noteq> {}" by blast
  with fin have "Max ?S \<in> ?S" by (rule Max_in)
  then have d: "Max ?S < nat col_count - 1" "row ! Max ?S \<noteq> Str Unclassified" by simp_all
  from fix_row_fill [OF n assms(6) assms(7) assms(8) assms(9) assms(10) d assms(11) assms(12) assms(13) assms(14)]
  obtain row' where r: "fix_row (col_count - 1) row = Inr row'"
      "row' ! u = Str (lab @ ''_'' @ replicate (u - c) (CHR ''X''))" by blast
  have "rows t' ! k = row'" if "check_intermediate_unclassified t col_count = Inr t'" for t'
  proof -
    from check_rows [OF that] have "fix_rows (col_count - 1) (rows t) = Inr (rows t')" by simp
    from fix_rows_nth [OF this] assms(4) have "fix_row (col_count - 1) (rows t ! k) = Inr (rows t' ! k)"
      by simp
    with r assms(5) show ?thesis by simp
  qed
  with r show ?thesis by blast
qed

lemma gap_filler_fills_example:
  "check_intermediate_unclassified
     \<lparr>columns = [''L1'', ''L2'', ''L3'', ''L4'', ''L5'', ''Sample1''],
      rows = [[Str ''Bacteria'', Str ''Unclassified'', Str ''Unclassified'', Str ''Clostridia'',
               Str ''Unclassified'', Num (5::int)]]\<rparr> 5
   = Inr \<lparr>columns = [''L1'', ''L2'', ''L3'', ''L4'', ''L5'', ''Sample1''],
          rows = [[Str ''Bacteria'', Str ''Bacteria_X'', Str ''Bacteria_XX'', Str ''Clostridia'',
                   Str ''Unclassified'', Num 5]]\<rparr>"
  by code_simp

section \<open>Lemmas about the Hierarchy Enforcer\<close>

lemma set_unique [simp]: "set (unique xs) = set xs"
  by (induction xs rule: unique.induct) auto

lemma distinct_unique [simp]: "distinct (unique xs)"
  by (induction xs rule: unique.induct) auto

lemma unique_Nil_iff [simp]: "unique xs = [] \<longleftrightarrow> xs = []"
  by (cases xs) simp_all

lemma digit_char_inj: "a < 10 \<Longrightarrow> b < 10 \<Longrightarrow> digit_char a = digit_char b \<Longrightarrow> a = b"
proof -
  assume a: "a < 10" and b: "b < 10" and eq: "digit_char a = digit_char b"
  have "of_char (digit_char a) = (48 + a) mod 256" "of_char (digit_char b) = (48 + b) mod 256"
    by (simp_all add: digit_char_def)
  with eq have "(48 + a) mod 256 = (48 + b) mod 256" by simp
  with a b show "a = b" by simp
qed

lemma digit_char_is_digit: "a < 10 \<Longrightarrow> is_digit (digit_char a)"
  by (simp add: digit_char_def is_digit_def)

lemma str_nat_small: "n < 10 \<Longrightarrow> str_nat n = [digit_char n]"
  by (simp add: str_nat.simps [of n])

lemma str_nat_big: "\<not> n < 10 \<Longrightarrow> str_nat n = str_nat (n div 10) @ [digit_char (n mod 10)]"
  by (simp add: str_nat.simps [of n])

lemma str_nat_not_Nil [simp]: "str_nat n \<noteq> []"
  by (cases "n < 10") (simp_all add: str_nat_small str_nat_big)

lemma Nil_not_str_nat [simp]: "[] \<noteq> str_nat n"
  using str_nat_not_Nil [of n] by (simp del: str_nat_not_Nil)

lemma str_nat_digits: "\<forall>c\<in>set (str_nat n). is_digit c"
proof (induction n rule: str_nat.induct)
  case (1 n)
  show ?case
  proof (cases "n < 10")
    case True
    then show ?thesis by (simp add: str_nat_small digit_char_is_digit)
  next
    case False
    with 1 show ?thesis by (simp add: str_nat_big digit_char_is_digit)
  qed
qed

lemma str_nat_inj: "str_nat n = str_nat m \<Longrightarrow> n = m"
proof (induction n arbitrary: m rule: str_nat.induct)
  case (1 n)
  show ?case
  proof (cases "n < 10")
    case n: True
    show ?thesis
    proof (cases "m < 10")
      case True
      with n "1.prems" show ?thesis
        by (simp add: str_nat_small digit_char_inj)
    next
      case False
      with n "1.prems" show ?thesis by (simp add: str_nat_small str_nat_big)
    qed
  next
    case n: False
    show ?thesis
    proof (cases "m < 10")
      case True
      with n "1.prems" show ?thesis by (simp add: str_nat_small str_nat_big)
    next
      case False
      from n False "1.prems" have a: "str_nat (n div 10) = str_nat (m div 10)"
        and b: "digit_char (n mod 10) = digit_char (m mod 10)"
        by (simp_all add: str_nat_big)
      from "1.IH" [OF n a] have "n div 10 = m div 10" .
      moreover from b have "n mod 10 = m mod 10" by (rule digit_char_inj [rotated 2]) simp_all
      ultimately show ?thesis by (metis div_mult_mod_eq)
    qed
  qed
qed

lemma dup_name_inj:
  assumes "l @ ''_dup'' @ str_nat n = l' @ ''_dup'' @ str_nat m"
  shows "l = l' \<and> n = m"
proof -
  have nd: "\<not> is_digit (CHR ''p'')" by (simp add: is_digit_def)
  have tw: "takeWhile is_digit (rev (l @ ''_dup'' @ str_nat k)) = rev (str_nat k)" for l k
  proof -
    have "rev (l @ ''_dup'' @ str_nat k) = rev (str_nat k) @ (CHR ''p'' # rev (l @ ''_du''))"
      by simp
    moreover have "\<forall>c\<in>set (rev (str_nat k)). is_digit c" using str_nat_digits by simp
    ultimately show ?thesis using nd by (simp only: takeWhile_append2 takeWhile.simps if_False append_Nil2)
  qed
  from assms have "takeWhile is_digit (rev (l @ ''_dup'' @ str_nat n)) =
      takeWhile is_digit (rev (l' @ ''_dup'' @ str_nat m))" by simp
  then have "rev (str_nat n) = rev (str_nat m)" by (simp only: tw)
  then have s: "str_nat n = str_nat m" by simp
  then have "n = m" by (rule str_nat_inj)
  moreover from assms s have "l = l'" by simp
  ultimately show ?thesis by simp
qed

lemma dup_label_inj: "dup_label l n = dup_label l' m \<Longrightarrow> l = l' \<and> n = m"
  unfolding dup_label_def by (rule dup_name_inj)

lemma index_of_nth: "x \<in> set xs \<Longrightarrow> index_of x xs < length xs \<and> xs ! index_of x xs = x"
  by (induction xs) auto

lemma index_of_inj: "x \<in> set xs \<Longrightarrow> y \<in> set xs \<Longrightarrow> index_of x xs = index_of y xs \<Longrightarrow> x = y"
  by (induction xs) (auto split: if_splits)

lemma length_unique_le: "length (unique xs) \<le> length xs"
proof (induction xs rule: unique.induct)
  case 1
  then show ?case by simp
next
  case (2 x xs)
  have "length (filter (\<lambda>y. y \<noteq> x) xs) \<le> length xs" by simp
  with 2 have "length (unique (filter (\<lambda>y. y \<noteq> x) xs)) \<le> length xs" by (rule le_trans)
  then show ?case by simp
qed

lemma is_str_the_str: "is_str c \<Longrightarrow> c = Str (the_str c)"
  by (cases c) simp_all

lemma is_str_not_NaN: "is_str c \<Longrightarrow> c \<noteq> NaN"
  by (cases c) simp_all

lemma py_eq_Str [simp]: "py_eq x (Str s) \<longleftrightarrow> x = Str s"
  by (auto simp: py_eq_def)

lemma py_eq_NaN [simp]: "\<not> py_eq x NaN"
  by (simp add: py_eq_def)

lemma py_eq_Num [simp]: "py_eq x (Num v) \<longleftrightarrow> x = Num v"
  by (auto simp: py_eq_def)

lemma py_eq_iff: "py_eq x y \<longleftrightarrow> x = y \<and> y \<noteq> NaN"
  by (auto simp: py_eq_def)

lemma parents_of_NaN [simp]: "parents_of i t NaN = []"
  by (simp add: parents_of_def)

lemma not_renames_NaN [simp]: "\<not> renames i t NaN"
  by (simp add: renames_def)

text \<open>One row under the loop over the parents.\<close>

lemma rename_row_fold:
  assumes "1 \<le> i" "distinct ups"
  shows "foldl (rename_row i label) r (enumerate n ups)
         = (if r ! (i - 1) \<in> set ups \<and> r ! (i - 1) \<noteq> NaN
            then r[i := Str (dup_label label (n + index_of (r ! (i - 1)) ups))] else r)"
  using assms(2)
proof (induction ups arbitrary: n r)
  case Nil
  then show ?case by simp
next
  case (Cons p ups)
  have neq: "i - 1 \<noteq> i" using assms(1) by simp
  have d: "distinct ups" and pn: "p \<notin> set ups" using Cons.prems by simp_all
  show ?case
  proof (cases "r ! (i - 1) = p")
    case True
    show ?thesis
    proof (cases "p = NaN")
      case nan: True
      with True pn have "r ! (i - 1) \<notin> set ups" by simp
      with Cons.IH [OF d, of r "Suc n"] True nan show ?thesis by simp
    next
      case False
      let ?r1 = "r[i := Str (dup_label label n)]"
      have "?r1 ! (i - 1) = p" using True neq by simp
      with pn have "foldl (rename_row i label) ?r1 (enumerate (Suc n) ups) = ?r1"
        using Cons.IH [OF d, of ?r1 "Suc n"] by simp
      with True False show ?thesis by (simp add: py_eq_def)
    qed
  next
    case False
    then have "\<not> py_eq (r ! (i - 1)) p" by (simp add: py_eq_def)
    with False Cons.IH [OF d, of r "Suc n"] show ?thesis by simp
  qed
qed

lemma rename_parent_fold:
  assumes "rows t = map h rs" "matching = map g rs"
  shows "for_each (rename_parent i (Str label) matching) t ps =
     Inr (t\<lparr>rows := map (\<lambda>r. if g r then foldl (rename_row i label) (h r) ps else h r) rs\<rparr>)"
  using assms(1)
proof (induction ps arbitrary: t h)
  case Nil
  then show ?case by simp
next
  case (Cons a ps)
  obtain idx p where a: "a = (idx, p)" by (cases a)
  let ?h = "\<lambda>r. if g r \<and> py_eq (h r ! (i - 1)) p then (h r)[i := Str (dup_label label idx)] else h r"
  let ?t1 = "t\<lparr>rows := map ?h rs\<rparr>"
  have "map2 (\<lambda>m r. if m then r[i := Str (dup_label label idx)] else r)
          (map2 (\<and>) (map g rs) (map (\<lambda>x. py_eq x p) (map (\<lambda>r. r ! (i - 1)) (map h rs)))) (map h rs)
        = map ?h rs"
    by (induction rs) auto
  then have t1: "rename_parent i (Str label) matching t a = Inr ?t1"
    using Cons.prems a assms(2) by (simp add: loc_assign_def col_def Let_def)
  have r1: "rows ?t1 = map ?h rs" by simp
  have "map (\<lambda>r. if g r then foldl (rename_row i label) (?h r) ps else ?h r) rs
      = map (\<lambda>r. if g r then foldl (rename_row i label) (h r) (a # ps) else h r) rs"
    by (rule map_cong [OF refl]) (simp add: a)
  with Cons.IH [OF r1] t1 show ?case by simp
qed

lemma rename_parent_not_str:
  "\<not> is_str label \<Longrightarrow> ps \<noteq> [] \<Longrightarrow> for_each (rename_parent i label matching) t ps = Inl TypeError"
  by (cases ps; cases label) auto

lemma fix_label_closed:
  assumes "1 \<le> i"
  shows "fix_label i t label =
     (if renames i t label
      then if is_str label
           then Inr (t\<lparr>rows := map (relabel i (parents_of i t label) label) (rows t)\<rparr>)
           else Inl TypeError
      else Inr t)"
proof (cases "label = Str Unclassified")
  case True
  then show ?thesis by (simp add: fix_label_def renames_def)
next
  case False
  let ?ups = "parents_of i t label"
  let ?matching = "map (\<lambda>x. py_eq x label) (col i t)"
  have m: "?matching = map (\<lambda>r. py_eq (r ! i) label) (rows t)" by (simp add: col_def)
  have cnt: "length (filter id ?matching) = length (filter (\<lambda>r. py_eq (r ! i) label) (rows t))"
    by (simp add: col_def filter_map comp_def)
  show ?thesis
  proof (cases "1 < length ?ups")
    case gt: True
    then have rn: "renames i t label" using False by (simp add: renames_def)
    have "length ?ups \<le> length (filter (\<lambda>r. py_eq (r ! i) label) (rows t))"
      unfolding parents_of_def
      using length_unique_le [of "map (\<lambda>r. r ! (i - 1)) (filter (\<lambda>r. py_eq (r ! i) label) (rows t))"]
      by simp
    with gt cnt have ne1: "length (filter id ?matching) \<noteq> 1" by simp
    have run: "fix_label i t label = for_each (rename_parent i label ?matching) t (enumerate 0 ?ups)"
      using False gt ne1 by (simp add: fix_label_def Let_def parents_of_def)
    show ?thesis
    proof (cases "is_str label")
      case s: True
      then obtain L where L: "label = Str L" by (cases label) simp_all
      have rows_eq: "map (\<lambda>r. if py_eq (r ! i) label then foldl (rename_row i L) (id r) (enumerate 0 ?ups) else id r) (rows t)
          = map (relabel i ?ups label) (rows t)"
      proof (rule map_cong [OF refl])
        fix r assume r: "r \<in> set (rows t)"
        show "(if py_eq (r ! i) label then foldl (rename_row i L) (id r) (enumerate 0 ?ups) else id r)
               = relabel i ?ups label r"
        proof (cases "r ! i = label")
          case True
          with r L have "r ! (i - 1) \<in> set ?ups" by (auto simp: parents_of_def)
          moreover have "distinct ?ups" by (simp add: parents_of_def)
          ultimately show ?thesis
            using True L rename_row_fold [OF assms, of ?ups L r 0] by (simp add: relabel_def)
        next
          case False
          then show ?thesis using L by (simp add: relabel_def)
        qed
      qed
      have "for_each (rename_parent i (Str L) ?matching) t (enumerate 0 ?ups)
          = Inr (t\<lparr>rows := map (\<lambda>r. if py_eq (r ! i) label then foldl (rename_row i L) (id r) (enumerate 0 ?ups) else id r) (rows t)\<rparr>)"
        by (rule rename_parent_fold) (simp_all add: m)
      with run L rows_eq rn s show ?thesis by simp
    next
      case s: False
      have "enumerate 0 ?ups \<noteq> []" using gt by (cases ?ups) simp_all
      with s have "for_each (rename_parent i label ?matching) t (enumerate 0 ?ups) = Inl TypeError"
        by (rule rename_parent_not_str)
      with run rn s show ?thesis by simp
    qed
  next
    case le: False
    then have "\<not> renames i t label" by (simp add: renames_def)
    then show ?thesis using False le by (simp add: fix_label_def Let_def parents_of_def)
  qed
qed

lemma relabel_frame: "j \<noteq> i \<Longrightarrow> relabel i ups label r ! j = r ! j"
  by (simp add: relabel_def)

lemma relabel_length [simp]: "length (relabel i ups label r) = length r"
  by (simp add: relabel_def)

lemma final_row_frame: "j \<noteq> i \<Longrightarrow> final_row i t r ! j = r ! j"
  by (simp add: final_row_def)

lemma final_row_length [simp]: "length (final_row i t r) = length r"
  by (simp add: final_row_def)

lemma final_row_label:
  assumes "i < length r"
  shows "final_row i t r ! i = (if renamed i t r then new_name i t r else r ! i)"
  using assms by (simp add: final_row_def)

lemma relabel_final:
  assumes "is_str L" "renames i t L" "r ! i = L"
  shows "relabel i (parents_of i t L) L r = final_row i t r"
  using assms by (simp add: relabel_def final_row_def renamed_def new_name_def)

lemma collision_freeD:
  "collision_free i t \<Longrightarrow> r \<in> set (rows t) \<Longrightarrow> r' \<in> set (rows t) \<Longrightarrow> renamed i t r
     \<Longrightarrow> r' ! i \<noteq> new_name i t r"
  unfolding collision_free_def by blast

text \<open>The table after the labels in \<open>D\<close> have been handled.\<close>

lemma partial_label_other:
  assumes "rows_ok i t" "collision_free i t"
    and "r \<in> set (rows t)" "L \<in> set (col i t)" "L \<notin> D"
  shows "(if r ! i \<in> D then final_row i t r else r) ! i = L \<longleftrightarrow> r ! i = L"
proof (cases "r ! i \<in> D")
  case False
  then show ?thesis by simp
next
  case True
  with assms(5) have ne: "r ! i \<noteq> L" by auto
  from assms(4) obtain r' where r': "r' \<in> set (rows t)" "r' ! i = L" by (auto simp: col_def)
  have len: "i < length r" using assms(1,3) by (simp add: rows_ok_def)
  have "final_row i t r ! i \<noteq> L"
  proof (cases "renamed i t r")
    case c: True
    from collision_freeD [OF assms(2,3) r'(1) c] have "r' ! i \<noteq> new_name i t r" .
    with c r' len show ?thesis by (simp add: final_row_label)
  next
    case False
    with ne len show ?thesis by (simp add: final_row_label)
  qed
  with True ne show ?thesis by simp
qed

lemma partial_parents:
  assumes "1 \<le> i" "rows_ok i t" "collision_free i t" "L \<in> set (col i t)" "L \<notin> D"
  shows "parents_of i (t\<lparr>rows := map (\<lambda>r. if r ! i \<in> D then final_row i t r else r) (rows t)\<rparr>) L
         = parents_of i t L"
proof -
  let ?g = "\<lambda>r. if r ! i \<in> D then final_row i t r else r"
  have neq: "i - 1 \<noteq> i" using assms(1) by simp
  have f: "filter ((\<lambda>r. py_eq (r ! i) L) \<circ> ?g) (rows t) = filter (\<lambda>r. py_eq (r ! i) L) (rows t)"
  proof (rule filter_cong [OF refl])
    fix r assume "r \<in> set (rows t)"
    from partial_label_other [OF assms(2,3) this assms(4,5)]
    show "((\<lambda>r. py_eq (r ! i) L) \<circ> ?g) r = py_eq (r ! i) L" by (simp add: py_eq_iff)
  qed
  have "map (\<lambda>r. r ! (i - 1)) (filter (\<lambda>r. py_eq (r ! i) L) (map ?g (rows t)))
      = map ((\<lambda>r. r ! (i - 1)) \<circ> ?g) (filter ((\<lambda>r. py_eq (r ! i) L) \<circ> ?g) (rows t))"
    by (simp add: filter_map)
  also have "\<dots> = map ((\<lambda>r. r ! (i - 1)) \<circ> ?g) (filter (\<lambda>r. py_eq (r ! i) L) (rows t))"
    by (simp only: f)
  also have "\<dots> = map (\<lambda>r. r ! (i - 1)) (filter (\<lambda>r. py_eq (r ! i) L) (rows t))"
  proof (rule map_cong [OF refl])
    fix r
    have "final_row i t r ! (i - 1) = r ! (i - 1)" using neq by (rule final_row_frame)
    then show "((\<lambda>r. r ! (i - 1)) \<circ> ?g) r = r ! (i - 1)" by simp
  qed
  finally show ?thesis by (simp add: parents_of_def)
qed

lemma partial_step:
  assumes "1 \<le> i" "rows_ok i t" "collision_free i t" "L \<in> set (col i t)" "L \<notin> D"
  shows "fix_label i (t\<lparr>rows := map (\<lambda>r. if r ! i \<in> D then final_row i t r else r) (rows t)\<rparr>) L
         = (if renames i t L \<and> \<not> is_str L then Inl TypeError
            else Inr (t\<lparr>rows := map (\<lambda>r. if r ! i \<in> insert L D then final_row i t r else r) (rows t)\<rparr>))"
proof -
  let ?g = "\<lambda>r. if r ! i \<in> D then final_row i t r else r"
  let ?g' = "\<lambda>r. if r ! i \<in> insert L D then final_row i t r else r"
  let ?s = "t\<lparr>rows := map ?g (rows t)\<rparr>"
  have ups: "parents_of i ?s L = parents_of i t L"
    by (rule partial_parents [OF assms])
  then have rn: "renames i ?s L = renames i t L" by (simp add: renames_def)
  show ?thesis
  proof (cases "renames i t L")
    case c: True
    show ?thesis
    proof (cases "is_str L")
      case s: True
      have "map (relabel i (parents_of i t L) L) (map ?g (rows t)) = map ?g' (rows t)"
        unfolding map_map
      proof (rule map_cong [OF refl])
        fix r assume r: "r \<in> set (rows t)"
        show "(relabel i (parents_of i t L) L \<circ> ?g) r = ?g' r"
        proof (cases "r ! i = L")
          case True
          with assms(5) have "?g r = r" by auto
          with True relabel_final [OF s c True] show ?thesis by simp
        next
          case False
          with partial_label_other [OF assms(2,3) r assms(4,5)] have "?g r ! i \<noteq> L" by simp
          then have "relabel i (parents_of i t L) L (?g r) = ?g r" by (simp add: relabel_def)
          with False show ?thesis by simp
        qed
      qed
      moreover have "fix_label i ?s L = Inr (?s\<lparr>rows := map (relabel i (parents_of i t L) L) (rows ?s)\<rparr>)"
        using c s ups rn by (simp add: fix_label_closed [OF assms(1)])
      ultimately show ?thesis using s by simp
    next
      case s: False
      with c rn show ?thesis by (simp add: fix_label_closed [OF assms(1)])
    qed
  next
    case c: False
    have "map ?g (rows t) = map ?g' (rows t)"
    proof (rule map_cong [OF refl])
      fix r assume r: "r \<in> set (rows t)"
      show "?g r = ?g' r"
      proof (cases "r ! i = L")
        case True
        with c assms(5) show ?thesis by (auto simp: final_row_def renamed_def)
      next
        case False
        then show ?thesis by simp
      qed
    qed
    moreover have "fix_label i ?s L = Inr ?s"
      using c rn by (simp add: fix_label_closed [OF assms(1)])
    ultimately show ?thesis using c by simp
  qed
qed

lemma partial_fold:
  assumes "1 \<le> i" "rows_ok i t" "collision_free i t"
    and "set ls \<subseteq> set (col i t)" "distinct ls" "set ls \<inter> D = {}"
  shows "for_each (fix_label i) (t\<lparr>rows := map (\<lambda>r. if r ! i \<in> D then final_row i t r else r) (rows t)\<rparr>) ls
         = (if \<exists>L\<in>set ls. renames i t L \<and> \<not> is_str L then Inl TypeError
            else Inr (t\<lparr>rows := map (\<lambda>r. if r ! i \<in> D \<union> set ls then final_row i t r else r) (rows t)\<rparr>))"
  using assms(4,5,6)
proof (induction ls arbitrary: D)
  case Nil
  then show ?case by simp
next
  case (Cons L ls)
  have L: "L \<in> set (col i t)" "L \<notin> D" using Cons.prems by auto
  have "set ls \<subseteq> set (col i t)" "distinct ls" "set ls \<inter> insert L D = {}"
    using Cons.prems by auto
  from Cons.IH [OF this] partial_step [OF assms(1,2,3) L]
  show ?case by simp
qed

lemma force_level_closed:
  assumes "1 \<le> i" "rows_ok i t" "collision_free i t"
  shows "force_level i t =
     (if bad_label i t then Inl TypeError else Inr (t\<lparr>rows := map (final_row i t) (rows t)\<rparr>))"
proof -
  have "for_each (fix_label i) (t\<lparr>rows := map (\<lambda>r. if r ! i \<in> {} then final_row i t r else r) (rows t)\<rparr>)
          (unique (col i t))
        = (if \<exists>L\<in>set (unique (col i t)). renames i t L \<and> \<not> is_str L then Inl TypeError
           else Inr (t\<lparr>rows := map (\<lambda>r. if r ! i \<in> {} \<union> set (unique (col i t)) then final_row i t r else r) (rows t)\<rparr>))"
    by (rule partial_fold [OF assms]) simp_all
  moreover have "map (\<lambda>r. if r ! i \<in> {} \<union> set (unique (col i t)) then final_row i t r else r) (rows t)
      = map (final_row i t) (rows t)"
    by (rule map_cong [OF refl]) (simp add: col_def)
  moreover have "(\<exists>L\<in>set (unique (col i t)). renames i t L \<and> \<not> is_str L) = bad_label i t"
    by (auto simp: bad_label_def col_def)
  ultimately show ?thesis by (simp add: force_level_def)
qed

lemma length_le_1_eq: "length xs \<le> 1 \<Longrightarrow> x \<in> set xs \<Longrightarrow> y \<in> set xs \<Longrightarrow> x = y"
  by (cases xs) auto

lemma unique_all_equal:
  assumes "\<forall>x\<in>set xs. \<forall>y\<in>set xs. x = y"
  shows "length (unique xs) \<le> 1"
proof (cases "unique xs")
  case Nil
  then show ?thesis by simp
next
  case (Cons a ys)
  show ?thesis
  proof (cases ys)
    case Nil
    with Cons show ?thesis by simp
  next
    case (Cons b zs)
    with \<open>unique xs = a # ys\<close> have u: "unique xs = a # b # zs" by simp
    have "distinct (unique xs)" by simp
    with u have "a \<noteq> b" by simp
    moreover have "a \<in> set xs" "b \<in> set xs"
      using u set_unique [of xs] by auto
    ultimately show ?thesis using assms by blast
  qed
qed

lemma parent_in_parents_of:
  "r \<in> set (rows t) \<Longrightarrow> r ! i \<noteq> NaN \<Longrightarrow> r ! (i - 1) \<in> set (parents_of i t (r ! i))"
  by (auto simp: parents_of_def py_eq_def)

lemma strict_after_level:
  assumes "1 \<le> i" "rows_ok i t" "collision_free i t" "force_level i t = Inr t'"
  shows "strict_level i t'"
proof -
  have neq: "i - 1 \<noteq> i" using assms(1) by simp
  from assms(4) have nb: "\<not> bad_label i t" and t': "t' = t\<lparr>rows := map (final_row i t) (rows t)\<rparr>"
    by (auto simp: force_level_closed [OF assms(1,2,3)] split: if_splits)
  have main: "r1 ! (i - 1) = r2 ! (i - 1)"
    if r1: "r1 \<in> set (rows t)" and r2: "r2 \<in> set (rows t)"
      and eq: "final_row i t r1 ! i = final_row i t r2 ! i"
      and nu: "final_row i t r1 ! i \<noteq> Str Unclassified"
      and nn: "final_row i t r1 ! i \<noteq> NaN" for r1 r2
  proof -
    have l1: "i < length r1" and l2: "i < length r2"
      using assms(2) r1 r2 by (simp_all add: rows_ok_def)
    have f1: "final_row i t r1 ! i = (if renamed i t r1 then new_name i t r1 else r1 ! i)"
      using l1 by (rule final_row_label)
    have f2: "final_row i t r2 ! i = (if renamed i t r2 then new_name i t r2 else r2 ! i)"
      using l2 by (rule final_row_label)
    show ?thesis
    proof (cases "renamed i t r1")
      case c1: True
      show ?thesis
      proof (cases "renamed i t r2")
        case c2: True
        from eq f1 f2 c1 c2 have "new_name i t r1 = new_name i t r2" by simp
        then have "dup_label (the_str (r1 ! i)) (index_of (r1 ! (i - 1)) (parents_of i t (r1 ! i)))
            = dup_label (the_str (r2 ! i)) (index_of (r2 ! (i - 1)) (parents_of i t (r2 ! i)))"
          by (simp add: new_name_def)
        from dup_label_inj [OF this] have lab0: "the_str (r1 ! i) = the_str (r2 ! i)"
          and idx: "index_of (r1 ! (i - 1)) (parents_of i t (r1 ! i))
            = index_of (r2 ! (i - 1)) (parents_of i t (r2 ! i))" by blast+
        from c1 c2 have s1: "is_str (r1 ! i)" and s2: "is_str (r2 ! i)" by (simp_all add: renamed_def)
        from is_str_the_str [OF s1] is_str_the_str [OF s2] lab0 have lab: "r2 ! i = r1 ! i" by simp
        from s1 have n1: "r1 ! i \<noteq> NaN" by (rule is_str_not_NaN)
        from s2 have n2: "r2 ! i \<noteq> NaN" by (rule is_str_not_NaN)
        have m1: "r1 ! (i - 1) \<in> set (parents_of i t (r1 ! i))" using r1 n1 by (rule parent_in_parents_of)
        have "r2 ! (i - 1) \<in> set (parents_of i t (r2 ! i))" using r2 n2 by (rule parent_in_parents_of)
        then have m2: "r2 ! (i - 1) \<in> set (parents_of i t (r1 ! i))" by (simp only: lab)
        from idx have "index_of (r1 ! (i - 1)) (parents_of i t (r1 ! i))
            = index_of (r2 ! (i - 1)) (parents_of i t (r1 ! i))" by (simp only: lab)
        with m1 m2 show ?thesis by (rule index_of_inj)
      next
        case c2: False
        from eq f1 f2 c1 c2 have "r2 ! i = new_name i t r1" by simp
        with collision_freeD [OF assms(3) r1 r2 c1] show ?thesis by simp
      qed
    next
      case c1: False
      show ?thesis
      proof (cases "renamed i t r2")
        case c2: True
        from eq f1 f2 c1 c2 have "r1 ! i = new_name i t r2" by simp
        with collision_freeD [OF assms(3) r2 r1 c2] show ?thesis by simp
      next
        case c2: False
        from eq f1 f2 c1 c2 have lab0: "r1 ! i = r2 ! i" by simp
        from lab0 have lab: "r2 ! i = r1 ! i" by (rule sym)
        from nu f1 c1 have nu1: "r1 ! i \<noteq> Str Unclassified" by simp
        from nn f1 c1 have n1: "r1 ! i \<noteq> NaN" by simp
        then have n2: "r2 ! i \<noteq> NaN" unfolding lab .
        have m1: "r1 ! (i - 1) \<in> set (parents_of i t (r1 ! i))" using r1 n1 by (rule parent_in_parents_of)
        have "r2 ! (i - 1) \<in> set (parents_of i t (r2 ! i))" using r2 n2 by (rule parent_in_parents_of)
        then have m2: "r2 ! (i - 1) \<in> set (parents_of i t (r1 ! i))" by (simp only: lab)
        show ?thesis
        proof (cases "renames i t (r1 ! i)")
          case rn: True
          from nb r1 rn have s1: "is_str (r1 ! i)" unfolding bad_label_def by blast
          with c1 rn have p1: "r1 ! (i - 1) = NaN" by (simp add: renamed_def)
          from s1 have "is_str (r2 ! i)" by (simp only: lab)
          moreover from rn have "renames i t (r2 ! i)" by (simp only: lab)
          ultimately have p2: "r2 ! (i - 1) = NaN" using c2 by (simp add: renamed_def)
          from p1 p2 show ?thesis by simp
        next
          case False
          with nu1 have le: "length (parents_of i t (r1 ! i)) \<le> 1" by (simp add: renames_def)
          from le m1 m2 show ?thesis by (rule length_le_1_eq)
        qed
      qed
    qed
  qed
  have fr: "final_row i t r ! (i - 1) = r ! (i - 1)" for r
    using neq by (rule final_row_frame)
  show ?thesis
    unfolding t' strict_level_def
  proof (intro ballI impI)
    fix a b
    assume a: "a \<in> set (rows (t\<lparr>rows := map (final_row i t) (rows t)\<rparr>))"
      and b: "b \<in> set (rows (t\<lparr>rows := map (final_row i t) (rows t)\<rparr>))"
      and h: "a ! i = b ! i \<and> a ! i \<noteq> Str Unclassified \<and> a ! i \<noteq> NaN"
    from a obtain r1 where r1: "r1 \<in> set (rows t)" "a = final_row i t r1" by auto
    from b obtain r2 where r2: "r2 \<in> set (rows t)" "b = final_row i t r2" by auto
    from h have h1: "a ! i = b ! i" and h2: "a ! i \<noteq> Str Unclassified" and h3: "a ! i \<noteq> NaN" by blast+
    have e1: "final_row i t r1 ! i = final_row i t r2 ! i" using h1 unfolding r1(2) r2(2) .
    have e2: "final_row i t r1 ! i \<noteq> Str Unclassified" using h2 unfolding r1(2) .
    have e3: "final_row i t r1 ! i \<noteq> NaN" using h3 unfolding r1(2) .
    from main [OF r1(1) r2(1) e1 e2 e3] have "r1 ! (i - 1) = r2 ! (i - 1)" .
    then show "a ! (i - 1) = b ! (i - 1)" by (simp only: r1(2) r2(2) fr)
  qed
qed

lemma strict_not_renames:
  assumes "strict_level i t"
  shows "\<not> renames i t L"
proof (cases "L = Str Unclassified \<or> L = NaN")
  case True
  then show ?thesis by (auto simp: renames_def)
next
  case False
  then have nu: "L \<noteq> Str Unclassified" and nn: "L \<noteq> NaN" by simp_all
  have "length (parents_of i t L) \<le> 1"
    unfolding parents_of_def
  proof (rule unique_all_equal, intro ballI)
    fix x y
    assume x: "x \<in> set (map (\<lambda>r. r ! (i - 1)) (filter (\<lambda>r. py_eq (r ! i) L) (rows t)))"
      and y: "y \<in> set (map (\<lambda>r. r ! (i - 1)) (filter (\<lambda>r. py_eq (r ! i) L) (rows t)))"
    from x obtain r where r: "r \<in> set (rows t)" "r ! i = L" "x = r ! (i - 1)"
      by (auto simp: image_iff py_eq_def)
    from y obtain r' where r': "r' \<in> set (rows t)" "r' ! i = L" "y = r' ! (i - 1)"
      by (auto simp: image_iff py_eq_def)
    have "r ! i = r' ! i \<and> r ! i \<noteq> Str Unclassified \<and> r ! i \<noteq> NaN" using r(2) r'(2) nu nn by simp
    moreover have "r ! i = r' ! i \<and> r ! i \<noteq> Str Unclassified \<and> r ! i \<noteq> NaN \<longrightarrow> r ! (i - 1) = r' ! (i - 1)"
    proof -
      from assms have "\<forall>r\<in>set (rows t). \<forall>r'\<in>set (rows t).
          r ! i = r' ! i \<and> r ! i \<noteq> Str Unclassified \<and> r ! i \<noteq> NaN \<longrightarrow> r ! (i - 1) = r' ! (i - 1)"
        by (simp only: strict_level_def)
      from this r(1) have "\<forall>r'\<in>set (rows t).
          r ! i = r' ! i \<and> r ! i \<noteq> Str Unclassified \<and> r ! i \<noteq> NaN \<longrightarrow> r ! (i - 1) = r' ! (i - 1)"
        by (rule bspec)
      from this r'(1) show ?thesis by (rule bspec)
    qed
    ultimately have "r ! (i - 1) = r' ! (i - 1)" by (rule rev_mp)
    then show "x = y" by (simp only: r(3) r'(3))
  qed
  then show ?thesis by (simp add: renames_def)
qed

lemma strict_fix_label:
  assumes "1 \<le> i" "strict_level i t"
  shows "fix_label i t L = Inr t"
  using strict_not_renames [OF assms(2), of L] by (simp add: fix_label_closed [OF assms(1)])

lemma strict_fixpoint:
  assumes "1 \<le> i" "strict_level i t"
  shows "force_level i t = Inr t"
proof -
  have "for_each (fix_label i) t ls = Inr t" for ls
    by (induction ls) (simp_all add: strict_fix_label [OF assms])
  then show ?thesis by (simp add: force_level_def)
qed

text \<open>Every pass rewrites the rows one by one and touches the column of its level only.\<close>

lemma row_wiseI:
  assumes "t' = t\<lparr>rows := map f (rows t)\<rparr>"
    and "\<And>r. length (f r) = length r"
    and "\<And>r k. keep k \<Longrightarrow> f r ! k = r ! k"
  shows "row_wise keep t t'"
  unfolding row_wise_def
proof (rule exI [of _ f], intro conjI allI impI)
  show "t' = t\<lparr>rows := map f (rows t)\<rparr>" by (rule assms(1))
next
  fix r show "length (f r) = length r" by (rule assms(2))
next
  fix r k assume "keep k" then show "f r ! k = r ! k" by (rule assms(3))
qed

lemma row_wise_refl: "row_wise keep t t"
  by (rule row_wiseI [where f = "\<lambda>r. r"]) simp_all

lemma row_wise_trans:
  assumes "row_wise keep t t'" "row_wise keep t' t''"
  shows "row_wise keep t t''"
proof -
  from assms(1) obtain f where f1: "t' = t\<lparr>rows := map f (rows t)\<rparr>"
    and f0: "\<forall>r. length (f r) = length r \<and> (\<forall>k. keep k \<longrightarrow> f r ! k = r ! k)"
    unfolding row_wise_def by (elim exE conjE)
  from f0 have f2: "length (f r) = length r" for r by simp
  from f0 have f3: "keep k \<Longrightarrow> f r ! k = r ! k" for r k by simp
  from assms(2) obtain g where g1: "t'' = t'\<lparr>rows := map g (rows t')\<rparr>"
    and g0: "\<forall>r. length (g r) = length r \<and> (\<forall>k. keep k \<longrightarrow> g r ! k = r ! k)"
    unfolding row_wise_def by (elim exE conjE)
  from g0 have g2: "length (g r) = length r" for r by simp
  from g0 have g3: "keep k \<Longrightarrow> g r ! k = r ! k" for r k by simp
  show ?thesis
  proof (rule row_wiseI [where f = "\<lambda>r. g (f r)"])
    show "t'' = t\<lparr>rows := map (\<lambda>r. g (f r)) (rows t)\<rparr>"
      by (simp add: g1 f1 comp_def)
    show "length (g (f r)) = length r" for r by (simp add: f2 g2)
    show "g (f r) ! k = r ! k" if "keep k" for r k using that by (simp add: f3 g3)
  qed
qed

lemma row_wise_weaken:
  assumes "row_wise keep t t'" "\<And>k. keep' k \<Longrightarrow> keep k"
  shows "row_wise keep' t t'"
proof -
  from assms(1) obtain f where f1: "t' = t\<lparr>rows := map f (rows t)\<rparr>"
    and f0: "\<forall>r. length (f r) = length r \<and> (\<forall>k. keep k \<longrightarrow> f r ! k = r ! k)"
    unfolding row_wise_def by (elim exE conjE)
  from f0 have f2: "length (f r) = length r" for r by simp
  from f0 have f3: "keep k \<Longrightarrow> f r ! k = r ! k" for r k by simp
  show ?thesis
    by (rule row_wiseI [where f = f]) (simp_all add: f1 f2 f3 assms(2))
qed

lemma fix_label_row_wise:
  assumes "1 \<le> i" "fix_label i t L = Inr t'"
  shows "row_wise (\<lambda>k. k \<noteq> i) t t'"
proof (cases "renames i t L")
  case True
  with assms(2) have "t' = t\<lparr>rows := map (relabel i (parents_of i t L) L) (rows t)\<rparr>"
    by (auto simp: fix_label_closed [OF assms(1)] split: if_splits)
  then show ?thesis
    by (rule row_wiseI) (simp_all add: relabel_frame)
next
  case False
  with assms(2) have "t' = t" by (simp add: fix_label_closed [OF assms(1)])
  then show ?thesis by (simp add: row_wise_refl)
qed

lemma force_level_row_wise:
  assumes "1 \<le> i" "force_level i t = Inr t'"
  shows "row_wise (\<lambda>k. k \<noteq> i) t t'"
proof -
  from assms(2) have "for_each (fix_label i) t (unique (col i t)) = Inr t'"
    by (simp add: force_level_def)
  then show ?thesis
  proof (rule for_each_invariant [where P = "row_wise (\<lambda>k. k \<noteq> i) t"])
    show "row_wise (\<lambda>k. k \<noteq> i) t t" by (rule row_wise_refl)
  next
    fix a x b
    assume "row_wise (\<lambda>k. k \<noteq> i) t a" and "fix_label i a x = Inr b"
    from this(1) fix_label_row_wise [OF assms(1) this(2)]
    show "row_wise (\<lambda>k. k \<noteq> i) t b" by (rule row_wise_trans)
  qed
qed

lemma force_upto_row_wise: "force_upto t n = Inr s \<Longrightarrow> row_wise (\<lambda>k. k = 0 \<or> n < k) t s"
proof (induction n arbitrary: s)
  case 0
  then show ?case by (simp add: row_wise_refl)
next
  case (Suc n)
  from Suc.prems obtain s0 where s0: "force_upto t n = Inr s0" and l: "force_level (Suc n) s0 = Inr s"
    by (auto split: sum.splits)
  have a: "row_wise (\<lambda>k. k = 0 \<or> Suc n < k) t s0"
    by (rule row_wise_weaken [OF Suc.IH [OF s0]]) auto
  have "row_wise (\<lambda>k. k \<noteq> Suc n) s0 s"
    by (rule force_level_row_wise [OF _ l]) simp
  then have b: "row_wise (\<lambda>k. k = 0 \<or> Suc n < k) s0 s"
    by (rule row_wise_weaken) auto
  from a b show ?case by (rule row_wise_trans)
qed

lemma row_wise_columns: "row_wise keep t t' \<Longrightarrow> columns t' = columns t"
  unfolding row_wise_def by (elim exE conjE) simp

lemma row_wise_nth:
  assumes "row_wise keep t t'"
  shows "length (rows t') = length (rows t) \<and>
     (\<forall>k<length (rows t). length (rows t' ! k) = length (rows t ! k)
        \<and> (\<forall>j. keep j \<longrightarrow> rows t' ! k ! j = rows t ! k ! j))"
proof -
  from assms obtain f where f1: "t' = t\<lparr>rows := map f (rows t)\<rparr>"
    and f0: "\<forall>r. length (f r) = length r \<and> (\<forall>k. keep k \<longrightarrow> f r ! k = r ! k)"
    unfolding row_wise_def by (elim exE conjE)
  show ?thesis using f0 by (simp add: f1)
qed

lemma row_wise_rows_ok:
  assumes "row_wise keep t t'" "rows_ok i t"
  shows "rows_ok i t'"
proof -
  from assms(1) obtain f where f1: "t' = t\<lparr>rows := map f (rows t)\<rparr>"
    and f0: "\<forall>r. length (f r) = length r \<and> (\<forall>k. keep k \<longrightarrow> f r ! k = r ! k)"
    unfolding row_wise_def by (elim exE conjE)
  show ?thesis using f0 assms(2) by (simp add: f1 rows_ok_def)
qed

lemma row_wise_wf:
  assumes "row_wise keep t t'" "wf_spf t"
  shows "wf_spf t'"
proof -
  from assms(1) obtain f where f1: "t' = t\<lparr>rows := map f (rows t)\<rparr>"
    and f0: "\<forall>r. length (f r) = length r \<and> (\<forall>k. keep k \<longrightarrow> f r ! k = r ! k)"
    unfolding row_wise_def by (elim exE conjE)
  show ?thesis using f0 assms(2) by (simp add: f1 wf_spf_def list_all_iff)
qed

lemma wf_rows_ok: "wf_spf t \<Longrightarrow> i < length (columns t) \<Longrightarrow> rows_ok i t"
  by (simp add: wf_spf_def rows_ok_def list_all_iff)

lemma row_wise_strict:
  assumes "row_wise keep t t'" "keep i" "keep (i - 1)" "strict_level i t"
  shows "strict_level i t'"
proof -
  from assms(1) obtain f where f1: "t' = t\<lparr>rows := map f (rows t)\<rparr>"
    and f0: "\<forall>r. length (f r) = length r \<and> (\<forall>k. keep k \<longrightarrow> f r ! k = r ! k)"
    unfolding row_wise_def by (elim exE conjE)
  from f0 assms(2) have fi: "f r ! i = r ! i" for r by simp
  from f0 assms(3) have fp: "f r ! (i - 1) = r ! (i - 1)" for r by simp
  from assms(4) have s: "r ! (i - 1) = r' ! (i - 1)"
    if "r \<in> set (rows t)" "r' \<in> set (rows t)" "r ! i = r' ! i" "r ! i \<noteq> Str Unclassified" "r ! i \<noteq> NaN"
    for r r'
    using that unfolding strict_level_def by blast
  show ?thesis
    unfolding strict_level_def f1
  proof (intro ballI impI)
    fix a b
    assume a: "a \<in> set (rows (t\<lparr>rows := map f (rows t)\<rparr>))"
      and b: "b \<in> set (rows (t\<lparr>rows := map f (rows t)\<rparr>))"
      and h: "a ! i = b ! i \<and> a ! i \<noteq> Str Unclassified \<and> a ! i \<noteq> NaN"
    from a obtain r1 where r1: "r1 \<in> set (rows t)" "a = f r1" by auto
    from b obtain r2 where r2: "r2 \<in> set (rows t)" "b = f r2" by auto
    from h have h1: "a ! i = b ! i" and h2: "a ! i \<noteq> Str Unclassified" and h3: "a ! i \<noteq> NaN" by blast+
    have e1: "r1 ! i = r2 ! i" using h1 unfolding r1(2) r2(2) fi .
    have e2: "r1 ! i \<noteq> Str Unclassified" using h2 unfolding r1(2) fi .
    have e3: "r1 ! i \<noteq> NaN" using h3 unfolding r1(2) fi .
    from s [OF r1(1) r2(1) e1 e2 e3] show "a ! (i - 1) = b ! (i - 1)"
      unfolding r1(2) r2(2) fp .
  qed
qed

text \<open>The loop over the levels.\<close>

lemma force_level_columns: "1 \<le> i \<Longrightarrow> force_level i t = Inr t' \<Longrightarrow> columns t' = columns t"
  using force_level_row_wise [of i t t'] by (auto dest: row_wise_columns)

lemma force_loop_from:
  "force_loop s [Suc a..<b] = Inr t' \<longleftrightarrow>
     (b \<le> Suc a \<or> b \<le> length (columns s))
     \<and> for_each (\<lambda>s i. force_level i s) s [Suc a..<b] = Inr t'"
proof (induction "b - Suc a" arbitrary: a s)
  case 0
  then show ?case by auto
next
  case (Suc n)
  then have lt: "Suc a < b" by simp
  then have u: "[Suc a..<b] = Suc a # [Suc (Suc a)..<b]" by (simp add: upt_rec)
  show ?case
  proof (cases "length (columns s) \<le> Suc a")
    case True
    with lt show ?thesis by (simp add: u)
  next
    case False
    have n: "n = b - Suc (Suc a)" using Suc.hyps(2) by simp
    show ?thesis
    proof (cases "force_level (Suc a) s")
      case (Inl e)
      with False show ?thesis by (simp add: u)
    next
      case (Inr s1)
      have c: "columns s1 = columns s" by (rule force_level_columns [OF _ Inr]) simp
      from Suc.hyps(1) [OF n, of s1] False lt c Inr
      show ?thesis by (auto simp: u)
    qed
  qed
qed

lemma force_upto_for_each:
  "force_upto t n = for_each (\<lambda>s i. force_level i s) t [Suc 0..<Suc n]"
proof (induction n)
  case 0
  show ?case by simp
next
  case (Suc n)
  have u: "[Suc 0..<Suc (Suc n)] = [Suc 0..<Suc n] @ [Suc n]" by simp
  show ?case
    unfolding u for_each_append force_upto.simps Suc
    by (simp split: sum.splits)
qed

lemma force_strict_iff:
  "force_strict_spf_hierarchy t c = Inr t' \<longleftrightarrow>
     (nat c \<le> 1 \<or> nat c \<le> length (columns t)) \<and> force_upto t (nat c - 1) = Inr t'"
proof (cases "nat c")
  case 0
  then show ?thesis by (auto simp: force_strict_spf_hierarchy_def)
next
  case (Suc m)
  have "[0..<Suc m] = 0 # [Suc 0..<Suc m]" by (simp add: upt_rec)
  then have "force_loop t [0..<Suc m] = force_loop t [Suc 0..<Suc m]" by simp
  then show ?thesis
    using Suc force_loop_from [of t 0 "Suc m" t']
    by (auto simp: force_strict_spf_hierarchy_def force_upto_for_each)
qed

lemma force_strict_InrD:
  assumes "force_strict_spf_hierarchy t c = Inr t'"
  shows "force_upto t (nat c - 1) = Inr t'" and "nat c \<le> 1 \<or> nat c \<le> length (columns t)"
  using assms by (simp_all add: force_strict_iff)

lemma force_upto_prefix:
  "force_upto t m = Inr s \<Longrightarrow> l \<le> m \<Longrightarrow>
     \<exists>s0. force_upto t l = Inr s0 \<and> row_wise (\<lambda>k. k \<le> l) s0 s"
proof (induction m arbitrary: s)
  case 0
  then show ?case by (simp add: row_wise_refl)
next
  case (Suc m)
  show ?case
  proof (cases "l = Suc m")
    case True
    with Suc.prems(1) show ?thesis by (auto simp: row_wise_refl)
  next
    case False
    with Suc.prems have lm: "l \<le> m" by simp
    from Suc.prems(1) obtain s1 where s1: "force_upto t m = Inr s1" and lv: "force_level (Suc m) s1 = Inr s"
      by (auto split: sum.splits)
    from Suc.IH [OF s1 lm] obtain s0 where s0: "force_upto t l = Inr s0"
      and a: "row_wise (\<lambda>k. k \<le> l) s0 s1" by blast
    have "row_wise (\<lambda>k. k \<noteq> Suc m) s1 s"
      by (rule force_level_row_wise [OF _ lv]) simp
    then have b: "row_wise (\<lambda>k. k \<le> l) s1 s"
      by (rule row_wise_weaken) (use lm in auto)
    from a b have "row_wise (\<lambda>k. k \<le> l) s0 s" by (rule row_wise_trans)
    with s0 show ?thesis by blast
  qed
qed

lemma force_upto_rows_ok:
  assumes "wf_spf t" "i < length (columns t)" "force_upto t n = Inr s"
  shows "rows_ok i s"
  using force_upto_row_wise [OF assms(3)] wf_rows_ok [OF assms(1,2)] by (rule row_wise_rows_ok)

lemma no_collisionsD:
  assumes "no_collisions t c" "1 \<le> i" "i < nat c" "force_upto t (i - 1) = Inr s"
  shows "collision_free i s"
proof -
  have "i \<in> set [1..<nat c]" using assms(2,3) by simp
  with assms(1) have "case force_upto t (i - 1) of Inl e \<Rightarrow> True | Inr s \<Rightarrow> collision_free i s"
    unfolding no_collisions_def list_all_iff by (rule bspec)
  with assms(4) show ?thesis by simp
qed

lemma strict_upto:
  assumes "wf_spf t" "1 \<le> i" "i < length (columns t)"
    and "force_upto t (i - 1) = Inr s0" "collision_free i s0"
    and "i \<le> m" "force_upto t m = Inr s"
  shows "strict_level i s"
proof -
  from force_upto_prefix [OF assms(7,6)] obtain s1 where s1: "force_upto t i = Inr s1"
    and rw: "row_wise (\<lambda>k. k \<le> i) s1 s" by blast
  from assms(2) obtain j where j: "i = Suc j" by (cases i) simp_all
  from s1 assms(4) j have lv: "force_level i s0 = Inr s1" by simp
  have ok: "rows_ok i s0" using assms(1,3,4) by (rule force_upto_rows_ok)
  have st: "strict_level i s1" using assms(2) ok assms(5) lv by (rule strict_after_level)
  show ?thesis by (rule row_wise_strict [OF rw _ _ st]) simp_all
qed

lemma strict_upto_id:
  assumes "\<And>i. 1 \<le> i \<Longrightarrow> i \<le> m \<Longrightarrow> strict_level i t"
  shows "force_upto t m = Inr t"
  using assms
proof (induction m)
  case 0
  show ?case by simp
next
  case (Suc m)
  have "force_upto t m = Inr t" by (rule Suc.IH) (simp add: Suc.prems)
  moreover have "force_level (Suc m) t = Inr t"
    by (rule strict_fixpoint) (simp_all add: Suc.prems)
  ultimately show ?case by simp
qed

lemma force_strict_strict:
  assumes "wf_spf t" "force_strict_spf_hierarchy t col_count = Inr t'"
    and "no_collisions t col_count" "1 \<le> i" "i < nat col_count"
  shows "strict_level i t'"
proof -
  from force_strict_InrD [OF assms(2)]
  have t': "force_upto t (nat col_count - 1) = Inr t'"
    and c: "nat col_count \<le> 1 \<or> nat col_count \<le> length (columns t)" .
  from assms(4,5) c have ic: "i < length (columns t)" by linarith
  have im: "i - 1 \<le> nat col_count - 1" "i \<le> nat col_count - 1" using assms(5) by linarith+
  from force_upto_prefix [OF t' im(1)] obtain s0 where s0: "force_upto t (i - 1) = Inr s0" by blast
  have "collision_free i s0" using assms(3,4,5) s0 by (rule no_collisionsD)
  with assms(1,4) ic s0 show ?thesis using im(2) t' by (rule strict_upto)
qed

section \<open>Claims about the Hierarchy Enforcer\<close>

text \<open>
  Claim C9, with the provisos it needs. Let the Enforcer return \<open>t'\<close> on a rectangular
  DataFrame \<open>t\<close>, and let no pass assign a label \<open>label_dupN\<close> that is already a label of
  the column it rewrites (\<open>no_collisions\<close>). Then a second run on \<open>t'\<close> returns \<open>t'\<close>
  itself, and in \<open>t'\<close> every label at a level \<open>1 \<le> i < col_count\<close>, other than
  Unclassified and the missing value NaN, has a single parent. Nothing is said of the
  rows whose label is missing: the Enforcer never renames them, whatever their parents.
\<close>

theorem enforcer_idempotent:
  assumes "wf_spf t" "force_strict_spf_hierarchy t col_count = Inr t'"
    and "no_collisions t col_count"
  shows "force_strict_spf_hierarchy t' col_count = Inr t'
         \<and> (\<forall>i. 1 \<le> i \<and> i < nat col_count \<longrightarrow> strict_level i t')"
proof -
  from force_strict_InrD [OF assms(2)]
  have t': "force_upto t (nat col_count - 1) = Inr t'"
    and c: "nat col_count \<le> 1 \<or> nat col_count \<le> length (columns t)" .
  have strict: "strict_level i t'" if i: "1 \<le> i" "i < nat col_count" for i
    using assms i by (rule force_strict_strict)
  have cols: "columns t' = columns t"
    using force_upto_row_wise [OF t'] by (rule row_wise_columns)
  have "force_upto t' (nat col_count - 1) = Inr t'"
    by (rule strict_upto_id) (rule strict, simp, linarith)
  with c cols have "force_strict_spf_hierarchy t' col_count = Inr t'"
    by (simp add: force_strict_iff)
  with strict show ?thesis by blast
qed

theorem enforcer_idempotent_witness:
  "force_strict_spf_hierarchy
     \<lparr>columns = [''L1'', ''L2'', ''L3'', ''S1''],
      rows = [[Str ''Bacteria'', Str ''Firmicutes'', Str ''Clostridia'', Num (1::int)],
              [Str ''Archaea'', Str ''Firmicutes'', Str ''Clostridia'', Num 2],
              [Str ''Bacteria'', Str ''Proteobacteria'', Str ''Unclassified'', Num 3],
              [Str ''Bacteria'', NaN, Str ''Bacilli'', Num 4]]\<rparr> 3
   = Inr \<lparr>columns = [''L1'', ''L2'', ''L3'', ''S1''],
          rows = [[Str ''Bacteria'', Str ''Firmicutes_dup0'', Str ''Clostridia_dup0'', Num 1],
                  [Str ''Archaea'', Str ''Firmicutes_dup1'', Str ''Clostridia_dup1'', Num 2],
                  [Str ''Bacteria'', Str ''Proteobacteria'', Str ''Unclassified'', Num 3],
                  [Str ''Bacteria'', NaN, Str ''Bacilli'', Num 4]]\<rparr>
   \<and> force_strict_spf_hierarchy
     \<lparr>columns = [''L1'', ''L2'', ''L3'', ''S1''],
      rows = [[Str ''Bacteria'', Str ''Firmicutes_dup0'', Str ''Clostridia_dup0'', Num (1::int)],
              [Str ''Archaea'', Str ''Firmicutes_dup1'', Str ''Clostridia_dup1'', Num 2],
              [Str ''Bacteria'', Str ''Proteobacteria'', Str ''Unclassified'', Num 3],
              [Str ''Bacteria'', NaN, Str ''Bacilli'', Num 4]]\<rparr> 3
   = Inr \<lparr>columns = [''L1'', ''L2'', ''L3'', ''S1''],
          rows = [[Str ''Bacteria'', Str ''Firmicutes_dup0'', Str ''Clostridia_dup0'', Num 1],
                  [Str ''Archaea'', Str ''Firmicutes_dup1'', Str ''Clostridia_dup1'', Num 2],
                  [Str ''Bacteria'', Str ''Proteobacteria'', Str ''Unclassified'', Num 3],
                  [Str ''Bacteria'', NaN, Str ''Bacilli'', Num 4]]\<rparr>"
proof -
  let ?t = "\<lparr>columns = [''L1'', ''L2'', ''L3'', ''S1''],
      rows = [[Str ''Bacteria'', Str ''Firmicutes'', Str ''Clostridia'', Num (1::int)],
              [Str ''Archaea'', Str ''Firmicutes'', Str ''Clostridia'', Num 2],
              [Str ''Bacteria'', Str ''Proteobacteria'', Str ''Unclassified'', Num 3],
              [Str ''Bacteria'', NaN, Str ''Bacilli'', Num 4]]\<rparr>"
  let ?t' = "\<lparr>columns = [''L1'', ''L2'', ''L3'', ''S1''],
          rows = [[Str ''Bacteria'', Str ''Firmicutes_dup0'', Str ''Clostridia_dup0'', Num (1::int)],
                  [Str ''Archaea'', Str ''Firmicutes_dup1'', Str ''Clostridia_dup1'', Num 2],
                  [Str ''Bacteria'', Str ''Proteobacteria'', Str ''Unclassified'', Num 3],
                  [Str ''Bacteria'', NaN, Str ''Bacilli'', Num 4]]\<rparr>"
  have wf: "wf_spf ?t" by (simp add: wf_spf_def)
  have run: "force_strict_spf_hierarchy ?t 3 = Inr ?t'" by code_simp
  have nc: "no_collisions ?t 3" by code_simp
  from enforcer_idempotent [OF wf run nc] run show ?thesis by blast
qed

text \<open>
  Without the proviso on the new labels the second run does change the table: the new
  label X\_dup0 of the rows (A, X) meets the label X\_dup0 that the column already has
  under the parent C, and the second run finds X\_dup0 under two parents.
\<close>

theorem enforcer_not_idempotent:
  "force_strict_spf_hierarchy
     \<lparr>columns = [''L1'', ''L2'', ''S1''],
      rows = [[Str ''C'', Str ''X_dup0'', Num (3::int)], [Str ''A'', Str ''X'', Num 1],
              [Str ''B'', Str ''X'', Num 2]]\<rparr> 2
   = Inr \<lparr>columns = [''L1'', ''L2'', ''S1''],
          rows = [[Str ''C'', Str ''X_dup0'', Num 3], [Str ''A'', Str ''X_dup0'', Num 1],
                  [Str ''B'', Str ''X_dup1'', Num 2]]\<rparr>
   \<and> force_strict_spf_hierarchy
     \<lparr>columns = [''L1'', ''L2'', ''S1''],
      rows = [[Str ''C'', Str ''X_dup0'', Num (3::int)], [Str ''A'', Str ''X_dup0'', Num 1],
              [Str ''B'', Str ''X_dup1'', Num 2]]\<rparr> 2
   = Inr \<lparr>columns = [''L1'', ''L2'', ''S1''],
          rows = [[Str ''C'', Str ''X_dup0_dup0'', Num 3], [Str ''A'', Str ''X_dup0_dup1'', Num 1],
                  [Str ''B'', Str ''X_dup1'', Num 2]]\<rparr>"
  by code_simp

text \<open>
  Claim C6, with the provisos it needs. Let \<open>s\<close> be the DataFrame that the pass over the
  level \<open>l \<ge> 1\<close> finds: the columns before \<open>l\<close> are already rewritten, the column \<open>l\<close>
  is still the one of the input \<open>t\<close>. Let the label in column \<open>l\<close> of row \<open>k\<close> be a str
  \<open>L\<close> other than Unclassified, and \<open>ups\<close> the distinct values of column \<open>l - 1\<close> of \<open>s\<close>
  in the rows that carry \<open>L\<close>, in the order of their first occurrence. If there is more
  than one of them, and no label \<open>label_dupN\<close> that the pass assigns is already a label
  of the column (\<open>collision_free\<close>), then in the output of the Enforcer row \<open>k\<close> has
  the parent it had in \<open>s\<close>; when this parent is not a missing value the row has the label
  \<open>L_dupN\<close>, where \<open>N\<close> is the index of the parent in \<open>ups\<close>, and when the parent is missing
  the row keeps the label \<open>L\<close>.
\<close>

theorem enforcer_renames:
  assumes "wf_spf t" "force_strict_spf_hierarchy t col_count = Inr t'"
    and "1 \<le> l" "l < nat col_count"
    and "force_upto t (l - 1) = Inr s" "collision_free l s"
    and "k < length (rows t)" "rows t ! k ! l = Str L" "L \<noteq> Unclassified"
    and "ups = unique (map (\<lambda>r. r ! (l - 1)) (filter (\<lambda>r. r ! l = Str L) (rows s)))"
    and "1 < length ups"
  shows "rows s ! k ! l = Str L \<and> rows t' ! k ! (l - 1) = rows s ! k ! (l - 1)
         \<and> (rows t' ! k ! (l - 1) = NaN \<longrightarrow> rows t' ! k ! l = Str L)
         \<and> (rows t' ! k ! (l - 1) \<noteq> NaN \<longrightarrow>
              (\<exists>N<length ups. ups ! N = rows t' ! k ! (l - 1)
                  \<and> rows t' ! k ! l = Str (L @ ''_dup'' @ str_nat N)))"
proof -
  from force_strict_InrD [OF assms(2)]
  have t': "force_upto t (nat col_count - 1) = Inr t'"
    and c: "nat col_count \<le> 1 \<or> nat col_count \<le> length (columns t)" .
  from c assms(3,4) have lc: "l < length (columns t)" by linarith
  have ups: "ups = parents_of l s (Str L)" by (simp add: assms(10) parents_of_def)
  have rn: "renames l s (Str L)" using assms(9,11) ups by (simp add: renames_def)
  \<comment> \<open>the table that the pass over column \<open>l\<close> finds\<close>
  have rw_s: "row_wise (\<lambda>j. j = 0 \<or> l - 1 < j) t s"
    using assms(5) by (rule force_upto_row_wise)
  from row_wise_nth [OF rw_s] assms(7) assms(3)
  have len_s: "length (rows s) = length (rows t)" and sl: "rows s ! k ! l = rows t ! k ! l"
    by simp_all
  have ok: "rows_ok l s" using assms(1) lc assms(5) by (rule force_upto_rows_ok)
  have ks: "k < length (rows s)" using len_s assms(7) by simp
  then have rin: "rows s ! k \<in> set (rows s)" by simp
  then have kl: "l < length (rows s ! k)" using ok by (simp add: rows_ok_def)
  have lab: "rows s ! k ! l = Str L" using sl assms(8) by simp
  \<comment> \<open>the pass over column \<open>l\<close>\<close>
  have "l \<le> nat col_count - 1" using assms(4) by linarith
  from force_upto_prefix [OF t' this] obtain s1 where s1: "force_upto t l = Inr s1"
    and rw: "row_wise (\<lambda>j. j \<le> l) s1 t'" by blast
  from assms(3) obtain j where j: "l = Suc j" by (cases l) simp_all
  from s1 assms(5) j have lv: "force_level l s = Inr s1" by simp
  then have closed: "s1 = s\<lparr>rows := map (final_row l s) (rows s)\<rparr>"
    by (auto simp: force_level_closed [OF assms(3) ok assms(6)] split: if_splits)
  have cell: "rows s1 ! k = final_row l s (rows s ! k)"
    using ks by (simp add: closed)
  have neq: "l - 1 \<noteq> l" using assms(3) by simp
  have fp: "final_row l s (rows s ! k) ! (l - 1) = rows s ! k ! (l - 1)"
    using neq by (rule final_row_frame)
  \<comment> \<open>the later passes\<close>
  have len_l: "length (rows s1) = length (rows s)" by (simp add: closed)
  from row_wise_nth [OF rw] ks len_l
  have out_l: "rows t' ! k ! l = rows s1 ! k ! l"
    and out_p: "rows t' ! k ! (l - 1) = rows s1 ! k ! (l - 1)"
    by simp_all
  have a: "rows t' ! k ! (l - 1) = rows s ! k ! (l - 1)"
    by (simp only: out_p cell fp)
  have b: "rows t' ! k ! l = Str L" if "rows s ! k ! (l - 1) = NaN"
  proof -
    from that have "\<not> renamed l s (rows s ! k)" by (simp add: renamed_def)
    then have "final_row l s (rows s ! k) = rows s ! k" by (simp add: final_row_def)
    then show ?thesis by (simp only: out_l cell lab)
  qed
  have d: "\<exists>N<length ups. ups ! N = rows t' ! k ! (l - 1)
             \<and> rows t' ! k ! l = Str (L @ ''_dup'' @ str_nat N)"
    if nn: "rows s ! k ! (l - 1) \<noteq> NaN"
  proof -
    have rd: "renamed l s (rows s ! k)" using lab rn nn by (simp add: renamed_def)
    have p_in: "rows s ! k ! (l - 1) \<in> set ups"
      using parent_in_parents_of [OF rin, of l] lab ups by simp
    let ?N = "index_of (rows s ! k ! (l - 1)) ups"
    from index_of_nth [OF p_in] have N: "?N < length ups" "ups ! ?N = rows s ! k ! (l - 1)"
      by simp_all
    have "final_row l s (rows s ! k) ! l = new_name l s (rows s ! k)"
      using final_row_label [OF kl, of s] rd by simp
    also have "\<dots> = Str (dup_label L ?N)" by (simp add: new_name_def lab ups)
    finally have "rows t' ! k ! l = Str (L @ ''_dup'' @ str_nat ?N)"
      by (simp only: out_l cell dup_label_def)
    with N a show ?thesis by auto
  qed
  from lab a b d show ?thesis by simp
qed

theorem enforcer_renames_witness:
  "force_strict_spf_hierarchy
     \<lparr>columns = [''Level_1'', ''Level_2'', ''Sample1''],
      rows = [[Str ''Bacteria'', Str ''Bacteroidetes'', Num (1::int)],
              [Str ''Archaea'', Str ''Bacteroidetes'', Num 2]]\<rparr> 2
   = Inr \<lparr>columns = [''Level_1'', ''Level_2'', ''Sample1''],
          rows = [[Str ''Bacteria'', Str ''Bacteroidetes_dup0'', Num 1],
                  [Str ''Archaea'', Str ''Bacteroidetes_dup1'', Num 2]]\<rparr>
   \<and> (\<exists>N<length [Str ''Bacteria'', Str ''Archaea'' :: int cell].
        [Str ''Bacteria'', Str ''Archaea''] ! N = (Str ''Archaea'' :: int cell)
        \<and> (Str ''Bacteroidetes_dup1'' :: int cell) = Str (''Bacteroidetes'' @ ''_dup'' @ str_nat N))"
proof -
  let ?t = "\<lparr>columns = [''Level_1'', ''Level_2'', ''Sample1''],
      rows = [[Str ''Bacteria'', Str ''Bacteroidetes'', Num (1::int)],
              [Str ''Archaea'', Str ''Bacteroidetes'', Num 2]]\<rparr>"
  let ?t' = "\<lparr>columns = [''Level_1'', ''Level_2'', ''Sample1''],
          rows = [[Str ''Bacteria'', Str ''Bacteroidetes_dup0'', Num (1::int)],
                  [Str ''Archaea'', Str ''Bacteroidetes_dup1'', Num 2]]\<rparr>"
  let ?ups = "[Str ''Bacteria'', Str ''Archaea''] :: int cell list"
  have wf: "wf_spf ?t" by (simp add: wf_spf_def)
  have run: "force_strict_spf_hierarchy ?t 2 = Inr ?t'" by code_simp
  have s: "force_upto ?t (1 - 1) = Inr ?t" by simp
  have cf: "collision_free 1 ?t" by code_simp
  have ups: "?ups = unique (map (\<lambda>r. r ! (1 - 1)) (filter (\<lambda>r. r ! 1 = Str ''Bacteroidetes'') (rows ?t)))"
    by simp
  have "rows ?t ! 1 ! 1 = Str ''Bacteroidetes'' \<and> rows ?t' ! 1 ! (1 - 1) = rows ?t ! 1 ! (1 - 1)
         \<and> (rows ?t' ! 1 ! (1 - 1) = NaN \<longrightarrow> rows ?t' ! 1 ! 1 = Str ''Bacteroidetes'')
         \<and> (rows ?t' ! 1 ! (1 - 1) \<noteq> NaN \<longrightarrow>
              (\<exists>N<length ?ups. ?ups ! N = rows ?t' ! 1 ! (1 - 1)
                \<and> rows ?t' ! 1 ! 1 = Str (''Bacteroidetes'' @ ''_dup'' @ str_nat N)))"
    by (rule enforcer_renames [OF wf run _ _ s cf _ _ _ ups]) simp_all
  then have "\<exists>N<length ?ups. ?ups ! N = Str ''Archaea''
        \<and> (Str ''Bacteroidetes_dup1'' :: int cell) = Str (''Bacteroidetes'' @ ''_dup'' @ str_nat N)"
    by simp
  with run show ?thesis by blast
qed

text \<open>
  Without the proviso on the new labels: the label X has the parents A and B, and the row
  (A, X) should get X\_dup0. The column also holds the label X\_dup0 under the parent C,
  which is handled after X; by then it stands in two rows with the parents A and C, and
  the row (A, X) ends as X\_dup0\_dup0.
\<close>

theorem enforcer_collision:
  "force_strict_spf_hierarchy
     \<lparr>columns = [''Level_1'', ''Level_2'', ''Sample1''],
      rows = [[Str ''A'', Str ''X'', Num (1::int)], [Str ''B'', Str ''X'', Num 2],
              [Str ''C'', Str ''X_dup0'', Num 3]]\<rparr> 2
   = Inr \<lparr>columns = [''Level_1'', ''Level_2'', ''Sample1''],
          rows = [[Str ''A'', Str ''X_dup0_dup0'', Num 1], [Str ''B'', Str ''X_dup1'', Num 2],
                  [Str ''C'', Str ''X_dup0_dup1'', Num 3]]\<rparr>
   \<and> unique [Str ''A'', Str ''B''] = [Str ''A'', Str ''B'' :: int cell]
   \<and> ''X_dup0_dup0'' \<noteq> ''X'' @ ''_dup'' @ str_nat 0"
  by code_simp

text \<open>
  What the Enforcer does with labels that are not text. The missing label NaN is left
  under its two parents, and the all-digit labels of a column that pandas has read as
  numbers end the run with the TypeError of line 241.
\<close>

lemma enforcer_missing_label:
  "force_strict_spf_hierarchy
     \<lparr>columns = [''Level_1'', ''Level_2'', ''Sample1''],
      rows = [[Str ''Bacteria'', NaN, Num (1::int)], [Str ''Archaea'', NaN, Num 2]]\<rparr> 2
   = Inr \<lparr>columns = [''Level_1'', ''Level_2'', ''Sample1''],
          rows = [[Str ''Bacteria'', NaN, Num 1], [Str ''Archaea'', NaN, Num 2]]\<rparr>"
  by code_simp

lemma enforcer_number_label:
  "force_strict_spf_hierarchy
     \<lparr>columns = [''Level_1'', ''Level_2'', ''Sample1''],
      rows = [[Str ''Bacteria'', Num (7::int), Num 1], [Str ''Archaea'', Num 7, Num 2]]\<rparr> 2
   = Inl TypeError"
  by code_simp

section \<open>The pipeline and the strict hierarchy\<close>

lemma main_run:
  assumes "read_csv input = Inr df" "force_strict_spf_hierarchy df col_count = Inr s"
    and "check_intermediate_unclassified s col_count = Inr filled"
  shows "main read_csv to_csv False col_count input = Inr (to_csv filled)"
  using assms by (simp add: main_def)

text \<open>
  Claim C1. The Gap Filler runs after the Enforcer, and the labels it writes give a label
  two parents. In this DataFrame no label has two parents: Clostridia stands under
  Unclassified in both rows, and the Enforcer returns the table as it is. The Gap Filler
  then writes Bacteria\_X and Archaea\_X over the two Unclassified parents, and in the
  output of the pipeline Clostridia has two parents.
\<close>

theorem gap_filler_breaks_hierarchy:
  "force_strict_spf_hierarchy
     \<lparr>columns = [''L1'', ''L2'', ''L3'', ''L4'', ''S1''],
      rows = [[Str ''Bacteria'', Str ''Unclassified'', Str ''Clostridia'', Str ''Unclassified'', Num (1::int)],
              [Str ''Archaea'', Str ''Unclassified'', Str ''Clostridia'', Str ''Unclassified'', Num 2]]\<rparr> 4
   = Inr \<lparr>columns = [''L1'', ''L2'', ''L3'', ''L4'', ''S1''],
      rows = [[Str ''Bacteria'', Str ''Unclassified'', Str ''Clostridia'', Str ''Unclassified'', Num 1],
              [Str ''Archaea'', Str ''Unclassified'', Str ''Clostridia'', Str ''Unclassified'', Num 2]]\<rparr>
   \<and> check_intermediate_unclassified
     \<lparr>columns = [''L1'', ''L2'', ''L3'', ''L4'', ''S1''],
      rows = [[Str ''Bacteria'', Str ''Unclassified'', Str ''Clostridia'', Str ''Unclassified'', Num (1::int)],
              [Str ''Archaea'', Str ''Unclassified'', Str ''Clostridia'', Str ''Unclassified'', Num 2]]\<rparr> 4
   = Inr \<lparr>columns = [''L1'', ''L2'', ''L3'', ''L4'', ''S1''],
      rows = [[Str ''Bacteria'', Str ''Bacteria_X'', Str ''Clostridia'', Str ''Unclassified'', Num 1],
              [Str ''Archaea'', Str ''Archaea_X'', Str ''Clostridia'', Str ''Unclassified'', Num 2]]\<rparr>"
  by code_simp

text \<open>
  No new label of the Enforcer meets a label of its column on this table, so the second
  parent is not the effect of a label \<open>label_dupN\<close> that was already there.
\<close>

lemma gap_filler_breaks_no_collision:
  "no_collisions
     \<lparr>columns = [''L1'', ''L2'', ''L3'', ''L4'', ''S1''],
      rows = [[Str ''Bacteria'', Str ''Unclassified'', Str ''Clostridia'', Str ''Unclassified'', Num (1::int)],
              [Str ''Archaea'', Str ''Unclassified'', Str ''Clostridia'', Str ''Unclassified'', Num 2]]\<rparr> 4"
  by code_simp

text \<open>
  Claim C2 (Scenario C). Let pandas read the input as the DataFrame with the one row
  (Unclassified, Unclassified, D\_2\_\_Clostridia) and a payload cell. With
  \<open>col_count = 3\<close> the run does stop, but not with the message that names the lineage:
  the levels 0 and 1 that the Gap Filler reads are both Unclassified, \<open>classified_i\<close> is
  empty and \<open>max(classified_i)\<close> raises ValueError before the test of level 0 is reached.
\<close>

theorem scenario_C_value_error:
  assumes "read_csv input =
     Inr \<lparr>columns = [''Level_1'', ''Level_2'', ''Level_3'', ''Sample1''],
          rows = [[Str ''Unclassified'', Str ''Unclassified'', Str ''D_2__Clostridia'', payload]]\<rparr>"
  shows "main read_csv to_csv False 3 input = Inl ValueError"
proof -
  let ?df = "\<lparr>columns = [''Level_1'', ''Level_2'', ''Level_3'', ''Sample1''],
          rows = [[Str ''Unclassified'', Str ''Unclassified'', Str ''D_2__Clostridia'', payload]]\<rparr>"
  have l1: "force_level (Suc 0) ?df = Inr ?df"
    by (simp add: force_level_def col_def fix_label_def)
  have l2: "force_level 2 ?df = Inr ?df"
    by (simp add: force_level_def col_def fix_label_def)
  have up: "[0..<nat 3] = [0, Suc 0, 2]" by code_simp
  have enf: "force_strict_spf_hierarchy ?df 3 = Inr ?df"
    unfolding force_strict_spf_hierarchy_def up by (simp add: l1 l2)
  have up2: "[0..<2] = [0, Suc 0]" by code_simp
  have row: "fix_row 2 [Str ''Unclassified'', Str ''Unclassified'', Str ''D_2__Clostridia'', payload]
      = Inl ValueError"
    by (simp add: fix_row_def py_slice_stop_def up2)
  have "check_intermediate_unclassified ?df 3 = Inl ValueError"
    by (simp add: check_intermediate_unclassified_def row)
  with assms enf show ?thesis by (simp add: main_def)
qed

theorem scenario_C_value_error_witness:
  "main read_text (write_text (\<lambda>n::int. []))  False 3
     \<lparr>columns = [''Level_1'', ''Level_2'', ''Level_3'', ''Sample1''],
      rows = [[''Unclassified'', ''Unclassified'', ''D_2__Clostridia'', ''NA'']]\<rparr>
   = Inl ValueError"
proof -
  have "read_text
     \<lparr>columns = [''Level_1'', ''Level_2'', ''Level_3'', ''Sample1''],
      rows = [[''Unclassified'', ''Unclassified'', ''D_2__Clostridia'', ''NA'']]\<rparr>
    = Inr \<lparr>columns = [''Level_1'', ''Level_2'', ''Level_3'', ''Sample1''],
          rows = [[Str ''Unclassified'', Str ''Unclassified'', Str ''D_2__Clostridia'', NaN :: int cell]]\<rparr>"
    by code_simp
  then show ?thesis by (rule scenario_C_value_error)
qed

section \<open>Lemmas about the Ambiguity Normalizer\<close>

lemma join_nth_split:
  "i < length xs \<Longrightarrow> \<exists>pre post. join sep xs = pre @ xs ! i @ post"
proof (induction sep xs arbitrary: i rule: join.induct)
  case (1 sep)
  then show ?case by simp
next
  case (2 sep x)
  then have "join sep [x] = [] @ [x] ! i @ []" by simp
  then show ?case by blast
next
  case (3 sep x y ys)
  show ?case
  proof (cases i)
    case 0
    have "join sep (x # y # ys) = [] @ (x # y # ys) ! 0 @ (sep @ join sep (y # ys))" by simp
    with 0 show ?thesis by blast
  next
    case (Suc n)
    with "3.prems" have "n < length (y # ys)" by simp
    from "3.IH" [OF this] obtain pre post where "join sep (y # ys) = pre @ (y # ys) ! n @ post"
      by blast
    then have "join sep (x # y # ys) = (x @ sep @ pre) @ (x # y # ys) ! Suc n @ post" by simp
    with Suc show ?thesis by blast
  qed
qed

lemma sublist_lower_join:
  assumes "i < length xs" "sublist s (lower (xs ! i))"
  shows "sublist s (lower (join sep xs))"
proof -
  from join_nth_split [OF assms(1)] obtain pre post where "join sep xs = pre @ xs ! i @ post"
    by blast
  then have "lower (join sep xs) = lower pre @ lower (xs ! i) @ lower post"
    by (simp add: lower_def)
  moreover from assms(2) obtain a b where "lower (xs ! i) = a @ s @ b"
    by (auto simp: sublist_def)
  ultimately have "lower (join sep xs) = (lower pre @ a) @ s @ (b @ lower post)" by simp
  then show ?thesis unfolding sublist_def by blast
qed

lemma replace_label_error: "replace_label out i label = Inl e \<Longrightarrow> e = AttributeError"
  by (auto simp: replace_label_def split: if_splits option.splits prod.splits)

lemma replace_taxa_append:
  "replace_taxa acc (xs @ ys) =
     (case replace_taxa acc xs of Inl e \<Rightarrow> Inl e | Inr out \<Rightarrow> replace_taxa out ys)"
  by (induction acc xs rule: replace_taxa.induct) (auto split: sum.splits)

lemma replace_taxa_error: "replace_taxa acc xs = Inl e \<Longrightarrow> e = AttributeError"
  by (induction acc xs rule: replace_taxa.induct)
     (auto split: sum.splits dest: replace_label_error)

lemma replace_taxa_nth:
  "replace_taxa acc (enumerate (length acc) xs) = Inr out \<Longrightarrow>
     length out = length acc + length xs \<and> take (length acc) out = acc
     \<and> (\<forall>i<length xs. replace_label (take (length acc + i) out) (length acc + i) (xs ! i)
            = Inr (out ! (length acc + i)))"
proof (induction xs arbitrary: acc)
  case Nil
  then show ?case by simp
next
  case (Cons x xs)
  from Cons.prems obtain v where v: "replace_label acc (length acc) x = Inr v"
    and rest: "replace_taxa (acc @ [v]) (enumerate (length (acc @ [v])) xs) = Inr out"
    by (auto split: sum.splits)
  from Cons.IH [OF rest]
  have len: "length out = length (acc @ [v]) + length xs"
    and tk: "take (length (acc @ [v])) out = acc @ [v]"
    and nth: "\<forall>i<length xs. replace_label (take (length (acc @ [v]) + i) out) (length (acc @ [v]) + i) (xs ! i)
            = Inr (out ! (length (acc @ [v]) + i))" by simp_all
  from tk have tk1: "take (Suc (length acc)) out = acc @ [v]" by simp
  then have "take (length acc) (take (Suc (length acc)) out) = take (length acc) (acc @ [v])" by simp
  then have tk0: "take (length acc) out = acc" by (simp add: min_def)
  from tk1 len have ov: "out ! length acc = v"
    by (metis length_append_singleton lessI nth_append_length nth_take)
  have "replace_label (take (length acc + i) out) (length acc + i) ((x # xs) ! i)
            = Inr (out ! (length acc + i))" if "i < length (x # xs)" for i
  proof (cases i)
    case 0
    with v tk0 ov show ?thesis by simp
  next
    case (Suc n)
    with that have "n < length xs" by simp
    with nth Suc show ?thesis by simp
  qed
  with len tk0 show ?case by simp
qed

lemma replace_lines_nth:
  "replace_lines c ls = Inr ls' \<Longrightarrow>
     length ls' = length ls \<and> (\<forall>k<length ls. replace_line c (ls ! k) = Inr (ls' ! k))"
proof (induction ls arbitrary: ls')
  case Nil
  then show ?case by simp
next
  case (Cons l ls)
  from Cons.prems obtain l' ls'' where
    l: "replace_line c l = Inr l'" and ls: "replace_lines c ls = Inr ls''" and eq: "ls' = l' # ls''"
    by (auto split: sum.splits)
  from Cons.IH [OF ls] l eq show ?case by (auto simp: nth_Cons')
qed

lemma replace_line_error: "replace_line c l = Inl e \<Longrightarrow> e = AttributeError"
  by (auto simp: replace_line_def Let_def split: if_splits sum.splits dest: replace_taxa_error)

lemma replace_lines_error: "replace_lines c ls = Inl e \<Longrightarrow> e = AttributeError"
  by (induction ls) (auto split: sum.splits dest: replace_line_error)

lemma replace_lines_fail:
  "k < length ls \<Longrightarrow> replace_line c (ls ! k) = Inl e \<Longrightarrow> replace_lines c ls = Inl AttributeError"
proof (induction ls arbitrary: k)
  case Nil
  then show ?case by simp
next
  case (Cons l ls)
  show ?case
  proof (cases k)
    case 0
    with Cons.prems have "replace_line c l = Inl e" by simp
    moreover from this have "e = AttributeError" by (rule replace_line_error)
    ultimately show ?thesis by simp
  next
    case (Suc n)
    with Cons.prems have "replace_lines c ls = Inl AttributeError" by (auto intro: Cons.IH)
    then show ?thesis by (auto split: sum.splits dest: replace_line_error)
  qed
qed

lemma not_digit_underscore: "\<not> is_digit (CHR ''_'')"
  by (simp add: is_digit_def)

lemma match_level_wf:
  assumes "ds \<noteq> []" "list_all is_digit ds"
  shows "match_level (''D_'' @ ds @ ''__'' @ rest) = Some (''D_'' @ ds @ ''__'', rest)"
proof -
  have d: "\<And>x. x \<in> set ds \<Longrightarrow> is_digit x" using assms(2) by (simp add: list_all_iff)
  have tw: "takeWhile is_digit (ds @ ''__'' @ rest) = ds"
    using d not_digit_underscore by (simp add: takeWhile_append2)
  have dw: "dropWhile is_digit (ds @ ''__'' @ rest) = ''__'' @ rest"
    using d not_digit_underscore by (simp add: dropWhile_append2)
  have dr: "drop 2 (''D_'' @ ds @ ''__'' @ rest) = ds @ ''__'' @ rest" by simp
  have pf: "prefix ''D_'' (''D_'' @ ds @ ''__'' @ rest)" by simp
  show ?thesis
    unfolding match_level_def using pf assms(1)
    by (simp only: dr tw dw Let_def if_True) simp
qed

lemma match_level_SomeD:
  assumes "match_level s = Some (tag, rest)"
  shows "\<exists>ds. ds \<noteq> [] \<and> list_all is_digit ds \<and> tag = ''D_'' @ ds @ ''__'' \<and> s = tag @ rest"
proof -
  let ?ds = "takeWhile is_digit (drop 2 s)"
  let ?r = "dropWhile is_digit (drop 2 s)"
  from assms have p: "prefix ''D_'' s" and ne: "?ds \<noteq> []" and p2: "prefix ''__'' ?r"
    and tag: "tag = ''D_'' @ ?ds @ ''__''" and rest: "rest = drop 2 ?r"
    by (auto simp: match_level_def Let_def split: if_splits)
  from p obtain s' where s: "s = ''D_'' @ s'" by (auto simp: prefix_def)
  then have s': "drop 2 s = s'" by simp
  from p2 obtain r' where r: "?r = ''__'' @ r'" by (auto simp: prefix_def)
  then have r': "drop 2 ?r = r'" by simp
  have "s' = ?ds @ ?r" by (simp add: s')
  with r have "s' = ?ds @ ''__'' @ r'" by simp
  with s tag rest r' have "s = tag @ rest" by simp
  moreover have "list_all is_digit ?ds" by (simp add: list_all_iff) (meson set_takeWhileD)
  ultimately show ?thesis using ne tag by blast
qed

lemma search_taxon_wf:
  assumes "ds \<noteq> []" "list_all is_digit ds" "CHR 0x0A \<notin> set name"
  shows "search_taxon (''D_'' @ ds @ ''__'' @ name) = Some name"
proof -
  have tw: "takeWhile (\<lambda>x. x \<noteq> CHR 0x0A) name = name"
    using assms(3) by (intro takeWhile_eq_all_conv [THEN iffD2]) auto
  show ?thesis
    using match_level_wf [OF assms(1,2), of name] tw by simp
qed

lemma replace_label_unknown:
  assumes "sublist ''unknown'' (lower label)"
    and "\<not> list_ex (\<lambda>s. sublist s (lower label)) str2replace"
  shows "replace_label out_taxa label_i label =
     (if label_i = 0 \<or> out_taxa ! (label_i - 1) = Unclassified then Inr Unclassified
      else case search_taxon (out_taxa ! (label_i - 1)) of
             None \<Rightarrow> Inl AttributeError
           | Some pre_label_taxon \<Rightarrow>
               (case match_level label of
                  None \<Rightarrow> Inl AttributeError
                | Some (label_level, r) \<Rightarrow> Inr (label_level @ pre_label_taxon @ ''_X'')))"
  using assms by (simp only: replace_label_def if_True if_False)


lemma csv_field_plain: "CHR 0x22 \<notin> set s \<Longrightarrow> csv_field s = s"
  by (simp add: csv_field_def)

lemma csv_field_quote: "CHR 0x22 \<in> set s \<Longrightarrow> CHR 0x22 \<in> set (csv_field s)"
  by (simp add: csv_field_def)

lemma writerow_plain:
  "writerow out = written \<Longrightarrow> \<forall>s\<in>set written. CHR 0x22 \<notin> set s \<Longrightarrow> out = written"
proof (induction out arbitrary: written)
  case Nil
  then show ?case by (simp add: writerow_def)
next
  case (Cons a out)
  from Cons.prems(1) obtain w ws where w: "written = w # ws" "csv_field a = w" "writerow out = ws"
    by (auto simp: writerow_def)
  from Cons.prems(2) w have "CHR 0x22 \<notin> set (csv_field a)" by simp
  then have "CHR 0x22 \<notin> set a" using csv_field_quote by blast
  then have "csv_field a = a" by (rule csv_field_plain)
  moreover from Cons.IH [OF w(3)] Cons.prems(2) w(1) have "out = ws" by simp
  ultimately show ?case using w by simp
qed

lemma replace_line_rewritten:
  assumes "replace_line col_count line_split = Inr written"
    and "list_ex (\<lambda>s. sublist s (lower (join [CHR 0x09] line_split))) (str2replace @ [''unknown''])"
  shows "\<exists>out_taxa. replace_taxa [] (enumerate 0 (take (py_slice_stop col_count (length line_split)) line_split))
             = Inr out_taxa
           \<and> length out_taxa = py_slice_stop col_count (length line_split)
           \<and> written = writerow (out_taxa @ drop (py_slice_stop col_count (length line_split)) line_split)"
proof -
  define k where "k = py_slice_stop col_count (length line_split)"
  have kl: "k \<le> length line_split" by (simp add: k_def py_slice_stop_le)
  from assms obtain out_taxa where
    ot: "replace_taxa [] (enumerate 0 (take k line_split)) = Inr out_taxa"
    and w: "written = writerow (out_taxa @ drop k line_split)"
    unfolding replace_line_def Let_def k_def [symmetric]
    by (auto split: sum.splits)
  from replace_taxa_nth [of "[]" "take k line_split" out_taxa] ot
  have "length out_taxa = length (take k line_split)" by simp
  with kl have "length out_taxa = k" by simp
  with ot w show ?thesis unfolding k_def by blast
qed

lemma replace_line_label:
  assumes "replace_line col_count line_split = Inr written"
    and "i < length line_split" "int i < col_count"
    and "list_ex (\<lambda>s. sublist s (lower (line_split ! i))) (str2replace @ [''unknown''])"
  shows "\<exists>out. written = writerow out \<and> length out = length line_split
           \<and> replace_label (take i out) i (line_split ! i) = Inr (out ! i)"
proof -
  define k where "k = py_slice_stop col_count (length line_split)"
  define taxa where "taxa = take k line_split"
  have ik: "i < k" using assms(2,3) by (auto simp: k_def py_slice_stop_def)
  have kl: "k \<le> length line_split" by (simp add: k_def py_slice_stop_le)
  from assms(4) obtain s where s: "s \<in> set (str2replace @ [''unknown''])"
      "sublist s (lower (line_split ! i))" by (auto simp: list_ex_iff)
  from sublist_lower_join [OF assms(2) s(2)] s(1)
  have trig: "list_ex (\<lambda>s. sublist s (lower (join [CHR 0x09] line_split))) (str2replace @ [''unknown''])"
    unfolding list_ex_iff by blast
  from replace_line_rewritten [OF assms(1) trig] obtain out_taxa where
    ot: "replace_taxa [] (enumerate 0 taxa) = Inr out_taxa" and len: "length out_taxa = k"
    and w: "written = writerow (out_taxa @ drop k line_split)"
    unfolding k_def [symmetric] taxa_def [symmetric] by blast
  define out where "out = out_taxa @ drop k line_split"
  from replace_taxa_nth [of "[]" taxa out_taxa] ot
  have nth: "\<forall>i<length taxa. replace_label (take i out_taxa) i (taxa ! i) = Inr (out_taxa ! i)"
    by simp
  have lt: "length taxa = k" using kl by (simp add: taxa_def)
  from nth ik lt have "replace_label (take i out_taxa) i (taxa ! i) = Inr (out_taxa ! i)" by simp
  moreover have "taxa ! i = line_split ! i" using ik by (simp add: taxa_def)
  moreover have "take i out = take i out_taxa" using ik len by (simp add: out_def)
  moreover have "out ! i = out_taxa ! i" using ik len by (simp add: out_def nth_append)
  ultimately have "replace_label (take i out) i (line_split ! i) = Inr (out ! i)" by simp
  moreover have "length out = length line_split" using len kl by (simp add: out_def)
  ultimately show ?thesis using w unfolding out_def [symmetric] by blast
qed

section \<open>Claims about the Ambiguity Normalizer\<close>

text \<open>
  Claim C7. Let the Normalizer return the file \<open>out_spf\<close> for the file \<open>in_spf\<close>, and let
  \<open>label\<close> be the field at a level \<open>i < col_count\<close> of the data line \<open>k\<close>, containing
  "unknown" in lower case and none of the four ambiguous substrings. Then line \<open>k\<close> of
  \<open>out_spf\<close> is the line that the csv writer writes for a list \<open>out\<close> of as many fields, in
  which \<open>out ! (i - 1)\<close> is the rewritten parent, and the field \<open>out ! i\<close> that takes the
  place of the label is: Unclassified at the root level or when the rewritten parent is
  Unclassified; otherwise the label has the form \<open>D_<digits>__<rest>\<close>, the search for
  the tag in the rewritten parent finds the taxon name \<open>name\<close>, and the field is
  \<open>D_<digits>__<name>_X\<close>: the label's own tag, the parent's taxon name and \<open>_X\<close>.
\<close>

theorem normalizer_unknown:
  assumes "replace_ambig_labels in_spf col_count = Inr out_spf"
    and "k < length (rows in_spf)" "line_split = rows in_spf ! k"
    and "i < length line_split" "int i < col_count"
    and "label = line_split ! i"
    and "sublist ''unknown'' (lower label)"
    and "\<not> list_ex (\<lambda>s. sublist s (lower label)) str2replace"
  shows "\<exists>out. rows out_spf ! k = writerow out \<and> length out = length line_split
           \<and> rows out_spf ! k ! i = csv_field (out ! i)
           \<and> (i = 0 \<or> out ! (i - 1) = Unclassified \<longrightarrow> out ! i = Unclassified)
           \<and> (i \<noteq> 0 \<and> out ! (i - 1) \<noteq> Unclassified \<longrightarrow>
                (\<exists>ds rest name.
                    label = ''D_'' @ ds @ ''__'' @ rest \<and> ds \<noteq> [] \<and> list_all is_digit ds
                    \<and> search_taxon (out ! (i - 1)) = Some name
                    \<and> out ! i = ''D_'' @ ds @ ''__'' @ name @ ''_X''))"
proof -
  from assms(1) obtain ls where ls: "replace_lines col_count (rows in_spf) = Inr ls"
    and o: "out_spf = in_spf\<lparr>rows := ls\<rparr>"
    by (auto simp: replace_ambig_labels_def split: sum.splits)
  from replace_lines_nth [OF ls] assms(2,3)
  have line: "replace_line col_count line_split = Inr (rows out_spf ! k)" by (simp add: o)
  have trig: "list_ex (\<lambda>s. sublist s (lower (line_split ! i))) (str2replace @ [''unknown''])"
    using assms(6,7) by (simp add: list_ex_iff)
  from replace_line_label [OF line assms(4,5) trig] obtain out where
    w: "rows out_spf ! k = writerow out" and len: "length out = length line_split"
    and rl: "replace_label (take i out) i label = Inr (out ! i)"
    using assms(6) by auto
  have il: "i < length out" using len assms(4) by simp
  have cell: "rows out_spf ! k ! i = csv_field (out ! i)"
    using il by (simp add: w writerow_def)
  have pre: "take i out ! (i - 1) = out ! (i - 1)" if "i \<noteq> 0"
    using that by simp
  have root: "out ! i = Unclassified" if "i = 0 \<or> out ! (i - 1) = Unclassified"
  proof -
    have "i = 0 \<or> take i out ! (i - 1) = Unclassified"
    proof (cases "i = 0")
      case True
      then show ?thesis by simp
    next
      case False
      with that pre show ?thesis by simp
    qed
    then have "replace_label (take i out) i label = Inr Unclassified"
      by (simp only: replace_label_unknown [OF assms(7,8)] if_True)
    with rl show ?thesis by simp
  qed
  have deep: "\<exists>ds rest name.
        label = ''D_'' @ ds @ ''__'' @ rest \<and> ds \<noteq> [] \<and> list_all is_digit ds
        \<and> search_taxon (out ! (i - 1)) = Some name
        \<and> out ! i = ''D_'' @ ds @ ''__'' @ name @ ''_X''"
    if h: "i \<noteq> 0 \<and> out ! (i - 1) \<noteq> Unclassified"
  proof -
    from h pre have c: "\<not> (i = 0 \<or> take i out ! (i - 1) = Unclassified)" by simp
    from h pre have p: "take i out ! (i - 1) = out ! (i - 1)" by simp
    from rl c have r: "(case search_taxon (out ! (i - 1)) of
             None \<Rightarrow> Inl AttributeError
           | Some pre_label_taxon \<Rightarrow>
               (case match_level label of
                  None \<Rightarrow> Inl AttributeError
                | Some (label_level, r) \<Rightarrow> Inr (label_level @ pre_label_taxon @ ''_X''))) = Inr (out ! i)"
      by (simp only: replace_label_unknown [OF assms(7,8)] if_False p)
    then obtain name tag rest where st: "search_taxon (out ! (i - 1)) = Some name"
      and ml: "match_level label = Some (tag, rest)" and v: "out ! i = tag @ name @ ''_X''"
      by (auto split: option.splits)
    from match_level_SomeD [OF ml] obtain ds where ds: "ds \<noteq> []" "list_all is_digit ds"
      and tag: "tag = ''D_'' @ ds @ ''__''" and lab: "label = tag @ rest" by blast
    from lab tag have "label = ''D_'' @ ds @ ''__'' @ rest" by simp
    moreover from v tag have "out ! i = ''D_'' @ ds @ ''__'' @ name @ ''_X''" by simp
    ultimately show ?thesis using ds st by blast
  qed
  from w len cell root deep show ?thesis by blast
qed

theorem normalizer_unknown_witness:
  "replace_ambig_labels
     \<lparr>columns = [''L1'', ''L2'', ''L3'', ''L4'', ''L5'', ''S1''],
      rows = [[''D_0__Bacteria'', ''D_1__Firmicutes'', ''D_2__unknown'',
               ''D_3__uncultured bacterium'', ''D_4__unknown'', ''12'']]\<rparr> 5
   = Inr \<lparr>columns = [''L1'', ''L2'', ''L3'', ''L4'', ''L5'', ''S1''],
          rows = [[''D_0__Bacteria'', ''D_1__Firmicutes'', ''D_2__Firmicutes_X'',
                   ''Unclassified'', ''Unclassified'', ''12'']]\<rparr>
   \<and> (\<exists>out. [''D_0__Bacteria'', ''D_1__Firmicutes'', ''D_2__Firmicutes_X'',
                ''Unclassified'', ''Unclassified'', ''12''] = writerow out
          \<and> search_taxon (out ! (2 - 1)) = Some ''Firmicutes''
          \<and> out ! 2 = ''D_2__Firmicutes_X'')
   \<and> (\<exists>out. [''D_0__Bacteria'', ''D_1__Firmicutes'', ''D_2__Firmicutes_X'',
                ''Unclassified'', ''Unclassified'', ''12''] = writerow out
          \<and> out ! (4 - 1) = Unclassified \<and> out ! 4 = Unclassified)"
proof -
  let ?line = "[''D_0__Bacteria'', ''D_1__Firmicutes'', ''D_2__unknown'',
               ''D_3__uncultured bacterium'', ''D_4__unknown'', ''12'']"
  let ?written = "[''D_0__Bacteria'', ''D_1__Firmicutes'', ''D_2__Firmicutes_X'',
                   ''Unclassified'', ''Unclassified'', ''12'']"
  let ?in = "\<lparr>columns = [''L1'', ''L2'', ''L3'', ''L4'', ''L5'', ''S1''], rows = [?line]\<rparr>"
  let ?out = "\<lparr>columns = [''L1'', ''L2'', ''L3'', ''L4'', ''L5'', ''S1''], rows = [?written]\<rparr>"
  have run: "replace_ambig_labels ?in 5 = Inr ?out" by code_simp
  have u2: "sublist ''unknown'' (lower ''D_2__unknown'')" by code_simp
  have a2: "\<not> list_ex (\<lambda>s. sublist s (lower ''D_2__unknown'')) str2replace" by code_simp
  have u4: "sublist ''unknown'' (lower ''D_4__unknown'')" by code_simp
  have a4: "\<not> list_ex (\<lambda>s. sublist s (lower ''D_4__unknown'')) str2replace" by code_simp
  have plain: "out = ?written" if "?written = writerow out" for out
    by (rule writerow_plain [OF that [symmetric]]) (simp add: is_digit_def)
  from normalizer_unknown [OF run, of 0 ?line 2 "''D_2__unknown''"] u2 a2
  obtain o2 where w2: "?written = writerow o2"
    and d2: "(2::nat) \<noteq> 0 \<and> o2 ! (2 - 1) \<noteq> Unclassified \<longrightarrow>
                (\<exists>ds rest name.
                    ''D_2__unknown'' = ''D_'' @ ds @ ''__'' @ rest \<and> ds \<noteq> [] \<and> list_all is_digit ds
                    \<and> search_taxon (o2 ! (2 - 1)) = Some name
                    \<and> o2 ! 2 = ''D_'' @ ds @ ''__'' @ name @ ''_X'')"
    by auto
  from plain [OF w2] have o2: "o2 = ?written" .
  have st: "search_taxon (?written ! (2 - 1)) = Some ''Firmicutes''" by code_simp
  have c2: "\<exists>out. ?written = writerow out
          \<and> search_taxon (out ! (2 - 1)) = Some ''Firmicutes'' \<and> out ! 2 = ''D_2__Firmicutes_X''"
    using w2 st unfolding o2 [symmetric] by (intro exI [of _ o2]) (simp add: o2)
  from normalizer_unknown [OF run, of 0 ?line 4 "''D_4__unknown''"] u4 a4
  obtain o4 where w4: "?written = writerow o4"
    and d4: "(4::nat) = 0 \<or> o4 ! (4 - 1) = Unclassified \<longrightarrow> o4 ! 4 = Unclassified"
    by auto
  from plain [OF w4] have o4: "o4 = ?written" .
  have c4: "\<exists>out. ?written = writerow out \<and> out ! (4 - 1) = Unclassified \<and> out ! 4 = Unclassified"
    using w4 d4 by (intro exI [of _ o4]) (simp add: o4)
  from run c2 c4 show ?thesis by blast
qed

text \<open>
  Claim C8, as the code has it. Let \<open>label\<close> be the label at a level \<open>0 < i < col_count\<close> of
  a data line, containing "unknown" and none of the four ambiguous substrings, let the
  labels before it be rewritten without failure to \<open>pre\<close>, and let the rewritten parent
  \<open>pre ! (i - 1)\<close> not be Unclassified. If the label does not start with its tag, or no
  tag is found in the rewritten parent, then the line fails and the run with
  \<open>--replace_ambig\<close> ends with the uncaught AttributeError of \<open>group\<close> on a failed match,
  before pandas reads anything.
\<close>

theorem normalizer_missing_tag:
  assumes "k < length (rows input)" "line_split = rows input ! k"
    and "0 < i" "i < length line_split" "int i < col_count"
    and "label = line_split ! i"
    and "sublist ''unknown'' (lower label)"
    and "\<not> list_ex (\<lambda>s. sublist s (lower label)) str2replace"
    and "replace_taxa [] (enumerate 0 (take i line_split)) = Inr pre"
    and "pre ! (i - 1) \<noteq> Unclassified"
    and "match_level label = None \<or> search_taxon (pre ! (i - 1)) = None"
  shows "replace_line col_count line_split = Inl AttributeError
         \<and> main read_csv to_csv True col_count input = Inl AttributeError"
proof -
  define n where "n = py_slice_stop col_count (length line_split)"
  define taxa where "taxa = take n line_split"
  have "i < n" using assms(4,5) by (auto simp: n_def py_slice_stop_def)
  moreover have nl: "n \<le> length line_split" by (simp add: n_def py_slice_stop_le)
  ultimately have it: "i < length taxa" by (simp add: taxa_def)
  have ti: "take i taxa = take i line_split" using \<open>i < n\<close> by (simp add: taxa_def min_def)
  have tl: "taxa ! i = label" using \<open>i < n\<close> assms(6) by (simp add: taxa_def)
  have "taxa = take i taxa @ taxa ! i # drop (Suc i) taxa"
    using it by (simp add: id_take_nth_drop [symmetric])
  then have "enumerate 0 taxa = enumerate 0 (take i taxa @ taxa ! i # drop (Suc i) taxa)" by simp
  also have "\<dots> = enumerate 0 (take i taxa) @ (i, label) # enumerate (Suc i) (drop (Suc i) taxa)"
    using it by (simp add: enumerate_append_eq tl min_def)
  finally have en: "enumerate 0 taxa =
      enumerate 0 (take i line_split) @ (i, label) # enumerate (Suc i) (drop (Suc i) taxa)"
    by (simp only: ti)
  have c: "\<not> (i = 0 \<or> pre ! (i - 1) = Unclassified)" using assms(3,10) by simp
  have rl: "replace_label pre i label = Inl AttributeError"
    using assms(11) c
    by (auto simp only: replace_label_unknown [OF assms(7,8)] if_False split: option.splits)
  have rt: "replace_taxa [] (enumerate 0 taxa) = Inl AttributeError"
    by (simp add: en replace_taxa_append assms(9) rl)
  from sublist_lower_join [OF assms(4), of "''unknown''" "[CHR 0x09]"] assms(6,7)
  have "sublist ''unknown'' (lower (join [CHR 0x09] line_split))" by simp
  then have trig: "list_ex (\<lambda>s. sublist s (lower (join [CHR 0x09] line_split))) (str2replace @ [''unknown''])"
    by (simp add: list_ex_iff)
  have line: "replace_line col_count line_split = Inl AttributeError"
    unfolding replace_line_def Let_def n_def [symmetric] taxa_def [symmetric]
    using trig rt by simp
  from replace_lines_fail [OF assms(1), of col_count AttributeError] line assms(2)
  have "replace_lines col_count (rows input) = Inl AttributeError" by simp
  then have "main read_csv to_csv True col_count input = Inl AttributeError"
    by (simp add: main_def replace_ambig_labels_def)
  with line show ?thesis by blast
qed

theorem normalizer_missing_tag_witness:
  "replace_line 2 [''Bacteria'', ''D_1__unknown'', ''7''] = Inl AttributeError
   \<and> main read_text (write_text (\<lambda>n::int. [])) True 2
       \<lparr>columns = [''Level_1'', ''Level_2'', ''Sample1''],
        rows = [[''Bacteria'', ''D_1__unknown'', ''7'']]\<rparr> = Inl AttributeError"
proof -
  let ?input = "\<lparr>columns = [''Level_1'', ''Level_2'', ''Sample1''],
                   rows = [[''Bacteria'', ''D_1__unknown'', ''7'']]\<rparr>"
  have u: "sublist ''unknown'' (lower ''D_1__unknown'')" by code_simp
  have a: "\<not> list_ex (\<lambda>s. sublist s (lower ''D_1__unknown'')) str2replace" by code_simp
  have pre: "replace_taxa [] (enumerate 0 (take 1 [''Bacteria'', ''D_1__unknown'', ''7''])) = Inr [''Bacteria'']"
    by code_simp
  have st: "match_level ''D_1__unknown'' = None \<or> search_taxon ([''Bacteria''] ! (1 - 1)) = None"
    by code_simp
  show ?thesis
    by (rule normalizer_missing_tag [where input = ?input and k = 0 and i = 1
          and label = "''D_1__unknown''", OF _ _ _ _ _ _ u a pre _ st]) simp_all
qed

text \<open>
  At the root level the branch for "unknown" is taken without looking at any tag: the
  label unknown, which has no tag, becomes Unclassified and the Normalizer returns.
\<close>

theorem normalizer_unknown_root_no_tag:
  "replace_ambig_labels
     \<lparr>columns = [''Level_1'', ''Level_2'', ''Sample1''],
      rows = [[''unknown'', ''D_1__Firmicutes'', ''7'']]\<rparr> 2
   = Inr \<lparr>columns = [''Level_1'', ''Level_2'', ''Sample1''],
          rows = [[''Unclassified'', ''D_1__Firmicutes'', ''7'']]\<rparr>
   \<and> sublist ''unknown'' (lower ''unknown'')
   \<and> match_level ''unknown'' = None"
  by code_simp

section \<open>What the passes leave alone\<close>

lemma same_from_trans: "same_from n t t' \<Longrightarrow> same_from n t' t'' \<Longrightarrow> same_from n t t''"
  by (simp add: same_from_def)

lemma same_from_refl: "same_from n t t"
  by (simp add: same_from_def)

lemma same_from_mono: "same_from n t t' \<Longrightarrow> n \<le> m \<Longrightarrow> same_from m t t'"
  by (auto simp: same_from_def)

lemma written_from_refl: "written_from n t t"
  by (simp add: written_from_def)

lemma replace_line_frame:
  assumes "0 \<le> c" "replace_line c l = Inr l'"
  shows "length l' = length l
     \<and> (\<forall>j. nat c \<le> j \<and> j < length l \<longrightarrow> l' ! j = l ! j \<or> l' ! j = csv_field (l ! j))"
proof (cases "list_ex (\<lambda>s. sublist s (lower (join [CHR 0x09] l))) (str2replace @ [''unknown''])")
  case False
  with assms(2) have "l' = l" by (simp add: replace_line_def)
  then show ?thesis by simp
next
  case True
  define k where "k = py_slice_stop c (length l)"
  have kl: "k \<le> length l" by (simp add: k_def py_slice_stop_le)
  have kc: "k \<le> nat c" using assms(1) by (simp add: k_def py_slice_stop_def)
  from replace_line_rewritten [OF assms(2) True] obtain out where
    lo: "length out = k" and l': "l' = writerow (out @ drop k l)"
    unfolding k_def [symmetric] by blast
  have len: "length l' = length l" using lo kl by (simp add: l' writerow_def)
  have "l' ! j = csv_field (l ! j)" if "nat c \<le> j" "j < length l" for j
  proof -
    have "j < length (out @ drop k l)" using that lo kl by simp
    then have "l' ! j = csv_field ((out @ drop k l) ! j)"
      unfolding l' writerow_def by (rule nth_map)
    also have "(out @ drop k l) ! j = l ! j" using that kc lo kl by (simp add: nth_append)
    finally show ?thesis .
  qed
  with len show ?thesis by blast
qed

lemma replace_ambig_frame:
  assumes "0 \<le> c" "replace_ambig_labels t c = Inr t'"
  shows "written_from (nat c) t t'"
proof -
  from assms(2) obtain ls where ls: "replace_lines c (rows t) = Inr ls" and t': "t' = t\<lparr>rows := ls\<rparr>"
    by (auto simp: replace_ambig_labels_def split: sum.splits)
  from replace_lines_nth [OF ls] have len: "length ls = length (rows t)"
    and nth: "\<forall>k<length (rows t). replace_line c (rows t ! k) = Inr (ls ! k)" by simp_all
  show ?thesis
    unfolding written_from_def t' using len nth replace_line_frame [OF assms(1)] by simp
qed

lemma force_strict_frame:
  assumes "force_strict_spf_hierarchy t c = Inr t'"
  shows "same_from (nat c) t t'"
proof -
  from force_strict_InrD(1) [OF assms] have t': "force_upto t (nat c - 1) = Inr t'" .
  have "row_wise (\<lambda>k. k = 0 \<or> nat c - 1 < k) t t'"
    using t' by (rule force_upto_row_wise)
  then have rw: "row_wise (\<lambda>k. nat c \<le> k) t t'"
    by (rule row_wise_weaken) arith
  from row_wise_nth [OF rw] row_wise_columns [OF rw] show ?thesis
    unfolding same_from_def by simp
qed

lemma check_frame:
  assumes "1 \<le> c" "check_intermediate_unclassified t c = Inr t'"
  shows "same_from (nat c - 1) t t'"
proof -
  from check_rows [OF assms(2)] have fr: "fix_rows (c - 1) (rows t) = Inr (rows t')"
    and cols: "columns t' = columns t" by simp_all
  from fix_rows_nth [OF fr] have len: "length (rows t') = length (rows t)"
    and nth: "\<forall>k<length (rows t). fix_row (c - 1) (rows t ! k) = Inr (rows t' ! k)" by simp_all
  have le: "py_slice_stop (c - 1) n \<le> nat c - 1" for n
    using assms(1) by (auto simp: py_slice_stop_def)
  have "length (rows t' ! k) = length (rows t ! k)
      \<and> (\<forall>j. nat c - 1 \<le> j \<longrightarrow> rows t' ! k ! j = rows t ! k ! j)"
    if "k < length (rows t)" for k
  proof -
    from nth that have "fix_row (c - 1) (rows t ! k) = Inr (rows t' ! k)" by simp
    from fix_row_frame [OF this] le [of "length (rows t ! k)"] show ?thesis
      by (meson le_trans)
  qed
  with cols len show ?thesis unfolding same_from_def by blast
qed

text \<open>
  Claim C10, as far as it holds. For a positive \<open>col_count\<close>, whenever the run writes an
  output: the file that pandas reads (the input, or the file that the Normalizer
  writes) has the header of the input, as many lines in the same order, every line has as
  many fields as the input line at the same place, and its fields at the positions
  \<open>col_count\<close> and above are those of the input, up to the quoting of the csv writer;
  the DataFrame that is handed to \<open>to_csv\<close> has the header of the DataFrame that
  \<open>read_csv\<close> returned, as many rows, every row has the length of the row at the same
  place, and all cells at the positions \<open>col_count\<close> and above are the same values; the
  output is what \<open>to_csv\<close> writes for it. And whenever the Gap Filler returns a table, the
  cells of the last level column, at position \<open>col_count - 1\<close>, are those of the table
  it was given. Nothing is said of the text that pandas reads and writes for a cell.
\<close>

theorem payload_preserved:
  assumes "1 \<le> col_count"
    and "main read_csv to_csv replace_ambig col_count input = Inr output"
  shows "(\<exists>tmp_spf input_spf filled_spf.
            (if replace_ambig then replace_ambig_labels input col_count = Inr tmp_spf
             else tmp_spf = input)
            \<and> written_from (nat col_count) input tmp_spf
            \<and> read_csv tmp_spf = Inr input_spf
            \<and> same_from (nat col_count) input_spf filled_spf
            \<and> output = to_csv filled_spf)
       \<and> (\<forall>orig_spf new_spf.
            check_intermediate_unclassified orig_spf col_count = Inr (new_spf :: 'a cell spf) \<longrightarrow>
            length (rows new_spf) = length (rows orig_spf)
            \<and> (\<forall>k<length (rows orig_spf).
                  rows new_spf ! k ! (nat col_count - 1) = rows orig_spf ! k ! (nat col_count - 1)))"
proof (rule conjI)
  from assms(2) obtain tmp t s filled where
    tmp: "(if replace_ambig then replace_ambig_labels input col_count else Inr input) = Inr tmp"
    and t: "read_csv tmp = Inr t"
    and s: "force_strict_spf_hierarchy t col_count = Inr s"
    and f: "check_intermediate_unclassified s col_count = Inr filled"
    and o: "output = to_csv filled"
    by (auto simp: main_def split: sum.splits if_splits)
  have c0: "0 \<le> col_count" using assms(1) by simp
  have a: "(if replace_ambig then replace_ambig_labels input col_count = Inr tmp else tmp = input)"
    using tmp by (simp split: if_splits)
  have w: "written_from (nat col_count) input tmp"
  proof (cases replace_ambig)
    case True
    with tmp have "replace_ambig_labels input col_count = Inr tmp" by simp
    with c0 show ?thesis by (rule replace_ambig_frame)
  next
    case False
    with tmp show ?thesis by (simp add: written_from_refl)
  qed
  have b: "same_from (nat col_count) t s" using s by (rule force_strict_frame)
  have "same_from (nat col_count - 1) s filled" using assms(1) f by (rule check_frame)
  then have c: "same_from (nat col_count) s filled" by (rule same_from_mono) simp
  from b c have "same_from (nat col_count) t filled" by (rule same_from_trans)
  with a w t o show "\<exists>tmp_spf input_spf filled_spf.
            (if replace_ambig then replace_ambig_labels input col_count = Inr tmp_spf
             else tmp_spf = input)
            \<and> written_from (nat col_count) input tmp_spf
            \<and> read_csv tmp_spf = Inr input_spf
            \<and> same_from (nat col_count) input_spf filled_spf
            \<and> output = to_csv filled_spf"
    by blast
next
  show "\<forall>orig_spf new_spf.
            check_intermediate_unclassified orig_spf col_count = Inr (new_spf :: 'a cell spf) \<longrightarrow>
            length (rows new_spf) = length (rows orig_spf)
            \<and> (\<forall>k<length (rows orig_spf).
                  rows new_spf ! k ! (nat col_count - 1) = rows orig_spf ! k ! (nat col_count - 1))"
  proof (intro allI impI)
    fix orig_spf new_spf :: "'a cell spf"
    assume "check_intermediate_unclassified orig_spf col_count = Inr new_spf"
    with assms(1) have "same_from (nat col_count - 1) orig_spf new_spf" by (rule check_frame)
    then show "length (rows new_spf) = length (rows orig_spf)
            \<and> (\<forall>k<length (rows orig_spf).
                  rows new_spf ! k ! (nat col_count - 1) = rows orig_spf ! k ! (nat col_count - 1))"
      by (simp add: same_from_def)
  qed
qed

theorem payload_preserved_witness:
  "main read_text (write_text (\<lambda>n::int. [])) True 4
     \<lparr>columns = [''L1'', ''L2'', ''L3'', ''L4'', ''Site''],
      rows = [[''D_0__Bacteria'', ''D_1__unknown'', ''D_2__Clostridia'', ''D_3__x'', ''gut''],
              [''D_0__Archaea'', ''Unclassified'', ''D_2__Clostridia'', ''D_3__y'', ''soil'']]\<rparr>
   = Inr \<lparr>columns = [''L1'', ''L2'', ''L3'', ''L4'', ''Site''],
      rows = [[''D_0__Bacteria'', ''D_1__Bacteria_X'', ''D_2__Clostridia_dup0'', ''D_3__x'', ''gut''],
              [''D_0__Archaea'', ''D_0__Archaea_X'', ''D_2__Clostridia_dup1'', ''D_3__y'', ''soil'']]\<rparr>
   \<and> (\<exists>tmp_spf input_spf filled_spf.
         replace_ambig_labels
           \<lparr>columns = [''L1'', ''L2'', ''L3'', ''L4'', ''Site''],
            rows = [[''D_0__Bacteria'', ''D_1__unknown'', ''D_2__Clostridia'', ''D_3__x'', ''gut''],
                    [''D_0__Archaea'', ''Unclassified'', ''D_2__Clostridia'', ''D_3__y'', ''soil'']]\<rparr> 4
           = Inr tmp_spf
         \<and> read_text tmp_spf = Inr input_spf
         \<and> same_from 4 input_spf filled_spf
         \<and> \<lparr>columns = [''L1'', ''L2'', ''L3'', ''L4'', ''Site''],
            rows = [[''D_0__Bacteria'', ''D_1__Bacteria_X'', ''D_2__Clostridia_dup0'', ''D_3__x'', ''gut''],
                    [''D_0__Archaea'', ''D_0__Archaea_X'', ''D_2__Clostridia_dup1'', ''D_3__y'', ''soil'']]\<rparr>
           = write_text (\<lambda>n::int. []) filled_spf)"
proof -
  let ?t = "\<lparr>columns = [''L1'', ''L2'', ''L3'', ''L4'', ''Site''],
      rows = [[''D_0__Bacteria'', ''D_1__unknown'', ''D_2__Clostridia'', ''D_3__x'', ''gut''],
              [''D_0__Archaea'', ''Unclassified'', ''D_2__Clostridia'', ''D_3__y'', ''soil'']]\<rparr>"
  let ?out = "\<lparr>columns = [''L1'', ''L2'', ''L3'', ''L4'', ''Site''],
      rows = [[''D_0__Bacteria'', ''D_1__Bacteria_X'', ''D_2__Clostridia_dup0'', ''D_3__x'', ''gut''],
              [''D_0__Archaea'', ''D_0__Archaea_X'', ''D_2__Clostridia_dup1'', ''D_3__y'', ''soil'']]\<rparr>"
  have run: "main read_text (write_text (\<lambda>n::int. [])) True 4 ?t = Inr ?out" by code_simp
  have c: "(1::int) \<le> 4" by simp
  from payload_preserved [OF c run]
  have "\<exists>tmp_spf input_spf filled_spf.
            (if True then replace_ambig_labels ?t 4 = Inr tmp_spf else tmp_spf = ?t)
            \<and> written_from (nat 4) ?t tmp_spf
            \<and> read_text tmp_spf = Inr input_spf
            \<and> same_from (nat 4) input_spf filled_spf
            \<and> ?out = write_text (\<lambda>n::int. []) filled_spf"
    by (rule conjunct1)
  then have "\<exists>tmp_spf input_spf filled_spf.
         replace_ambig_labels ?t 4 = Inr tmp_spf
         \<and> read_text tmp_spf = Inr input_spf
         \<and> same_from 4 input_spf filled_spf
         \<and> ?out = write_text (\<lambda>n::int. []) filled_spf"
    by auto
  with run show ?thesis by blast
qed

text \<open>
  The payload of the output is not the payload of the input byte for byte: pandas reads
  the payload NA as a missing value and writes a missing value as the empty field.
\<close>

theorem payload_retyped:
  "main read_text (write_text (\<lambda>n::int. [])) False 2
     \<lparr>columns = [''Level_1'', ''Level_2'', ''Sample1''],
      rows = [[''Bacteria'', ''Firmicutes'', ''NA'']]\<rparr>
   = Inr \<lparr>columns = [''Level_1'', ''Level_2'', ''Sample1''],
          rows = [[''Bacteria'', ''Firmicutes'', '''']]\<rparr>"
  by code_simp

end
